theory Spec2Isabelle
  imports Main "HOL-Library.Sublist"
begin

section \<open>The multi-agent orchestrator (multi-auggie-orchestrator.py)\<close>

text \<open>
  A shallow embedding of \<^verbatim>\<open>MultiAuggieOrchestrator\<close>: the task and agent records, the
  matcher \<^verbatim>\<open>_find_best_agent_for_task\<close>, the eligibility check \<^verbatim>\<open>_can_assign_task\<close>,
  the assign phase \<^verbatim>\<open>assign_tasks\<close>, one execution \<^verbatim>\<open>execute_task\<close> and the loop
  \<^verbatim>\<open>orchestrate\<close>.

  Conventions of the model.
  \<^item> The two dictionaries \<^verbatim>\<open>self.tasks\<close> and \<^verbatim>\<open>self.agents\<close> map an identifier to the
    object that carries it (\<^verbatim>\<open>self.tasks[task.id] = task\<close>). They are lists of records in
    the dictionary's iteration order; that a dictionary has each key once is the
    predicate \<open>well_formed\<close> below. An object mutated through a reference is the record with that
    identifier, rewritten in place in the list.
  \<^item> Python strings are \<open>string\<close>; \<^verbatim>\<open>str.lower\<close> is modelled on the ASCII letters.
  \<^item> Printing is not modelled.
\<close>

subsection \<open>Data model\<close>

datatype TaskStatus = PENDING | ASSIGNED | IN_PROGRESS | COMPLETED | FAILED | BLOCKED

record Task =
  task_id :: string
  description :: string
  component :: string
  files :: "string list"
  dependencies :: "string list"
  parallel_safe :: bool
  estimated_effort :: int
  task_status :: TaskStatus
  assigned_agent :: "string option"
  output_path :: "string option"

record AuggieAgent =
  agent_id :: string
  name :: string
  specialization :: string
  working_dir :: string
  agent_status :: string
  current_task :: "string option"

record Orchestrator =
  agents :: "AuggieAgent list"
  tasks :: "Task list"

definition well_formed :: "Orchestrator \<Rightarrow> bool" where
  "well_formed s = (distinct (map task_id (tasks s)) \<and> distinct (map agent_id (agents s)))"

definition lookup_task :: "Task list \<Rightarrow> string \<Rightarrow> Task option" where
  "lookup_task ts i = find (\<lambda>t. task_id t = i) ts"

definition lookup_agent :: "AuggieAgent list \<Rightarrow> string \<Rightarrow> AuggieAgent option" where
  "lookup_agent as i = find (\<lambda>a. agent_id a = i) as"

definition update_task :: "string \<Rightarrow> (Task \<Rightarrow> Task) \<Rightarrow> Task list \<Rightarrow> Task list" where
  "update_task i f ts = map (\<lambda>t. if task_id t = i then f t else t) ts"

definition update_agent ::
  "string \<Rightarrow> (AuggieAgent \<Rightarrow> AuggieAgent) \<Rightarrow> AuggieAgent list \<Rightarrow> AuggieAgent list" where
  "update_agent i f as = map (\<lambda>a. if agent_id a = i then f a else a) as"

definition status_of :: "Orchestrator \<Rightarrow> string \<Rightarrow> TaskStatus option" where
  "status_of s i = map_option task_status (lookup_task (tasks s) i)"

subsection \<open>Strings\<close>

text \<open>\<^verbatim>\<open>str.lower\<close> on one character: the ASCII capitals go to their small letters.\<close>

definition lower_char :: "char \<Rightarrow> char" where
  "lower_char c =
     (case map_of (zip ''ABCDEFGHIJKLMNOPQRSTUVWXYZ'' ''abcdefghijklmnopqrstuvwxyz'') c of
        None \<Rightarrow> c
      | Some l \<Rightarrow> l)"

definition lower :: "string \<Rightarrow> string" where
  "lower s = map lower_char s"

text \<open>Python's \<^verbatim>\<open>needle in haystack\<close> on strings: a contiguous occurrence.\<close>

fun str_in :: "string \<Rightarrow> string \<Rightarrow> bool" where
  "str_in needle [] = (needle = [])"
| "str_in needle (c # cs) = (prefix needle (c # cs) \<or> str_in needle cs)"

subsection \<open>The matcher\<close>

text \<open>
  \<^verbatim>\<open>
  score = 0
  if agent.specialization in task.component.lower():   score += 10
  if agent.specialization in task.description.lower(): score += 5
  \<close>
\<close>

definition score :: "AuggieAgent \<Rightarrow> Task \<Rightarrow> int" where
  "score agent task =
     (if str_in (specialization agent) (lower (component task)) then 10 else 0) +
     (if str_in (specialization agent) (lower (description task)) then 5 else 0)"

text \<open>
  \<^verbatim>\<open>scored_agents.sort(key=lambda x: x[0], reverse=True)\<close>: Python's sort is stable, and with
  \<^verbatim>\<open>reverse=True\<close> elements of equal key keep their order. That is the stable ascending
  sort on the negated key.
\<close>

definition sort_reverse :: "(int \<times> AuggieAgent) list \<Rightarrow> (int \<times> AuggieAgent) list" where
  "sort_reverse xs = sort_key (\<lambda>x. - fst x) xs"

definition find_best_agent_for_task :: "Orchestrator \<Rightarrow> Task \<Rightarrow> AuggieAgent option" where
  "find_best_agent_for_task s task =
     (let available_agents = filter (\<lambda>a. agent_status a = ''idle'') (agents s) in
      if available_agents = [] then None
      else
        let scored_agents = map (\<lambda>agent. (score agent task, agent)) available_agents;
            sorted_agents = sort_reverse scored_agents
        in (case sorted_agents of [] \<Rightarrow> None | x # _ \<Rightarrow> Some (snd x)))"

subsection \<open>The eligibility check\<close>

text \<open>
  The two loops of \<^verbatim>\<open>_can_assign_task\<close>, each with its early \<^verbatim>\<open>return False\<close>.
  \<open>deps_loop\<close> is true when the dependency loop runs to its end; a \<^verbatim>\<open>dep_id\<close> that is
  not a key of \<^verbatim>\<open>self.tasks\<close> is skipped by the guard \<^verbatim>\<open>if dep_id in self.tasks\<close>.
  \<open>conflict_loop\<close> is true when the file loop hits its \<^verbatim>\<open>return False\<close>.
\<close>

fun deps_loop :: "Task list \<Rightarrow> string list \<Rightarrow> bool" where
  "deps_loop ts [] = True"
| "deps_loop ts (dep_id # ds) =
     (case lookup_task ts dep_id of
        None \<Rightarrow> deps_loop ts ds
      | Some dep_task \<Rightarrow>
          if task_status dep_task \<noteq> COMPLETED then False else deps_loop ts ds)"

fun conflict_loop :: "Task \<Rightarrow> Task list \<Rightarrow> bool" where
  "conflict_loop task [] = False"
| "conflict_loop task (other_task # os) =
     (if task_status other_task = IN_PROGRESS \<and> task_id other_task \<noteq> task_id task \<and>
         set (files task) \<inter> set (files other_task) \<noteq> {}
      then True else conflict_loop task os)"

definition can_assign_task :: "Orchestrator \<Rightarrow> Task \<Rightarrow> bool" where
  "can_assign_task s task =
     (if deps_loop (tasks s) (dependencies task)
      then (if parallel_safe task then True
            else if conflict_loop task (tasks s) then False else True)
      else False)"

subsection \<open>The assign phase\<close>

text \<open>
  One iteration of the loop of \<^verbatim>\<open>assign_tasks\<close>, for one task of the snapshot
  \<^verbatim>\<open>available_tasks\<close>. The loop variable is the task object itself; with unique keys
  no earlier iteration writes to it, so the record of the snapshot is the task as it is
  when its turn comes. The agent's \<^verbatim>\<open>status\<close> is not written here: only
  \<^verbatim>\<open>current_task\<close> is.
\<close>

definition assign_step :: "Task \<Rightarrow> Orchestrator \<Rightarrow> Orchestrator" where
  "assign_step task s =
     (case find_best_agent_for_task s task of
        None \<Rightarrow> s
      | Some best_agent \<Rightarrow>
          if can_assign_task s task
          then s\<lparr>tasks := update_task (task_id task)
                    (\<lambda>t. t\<lparr>task_status := ASSIGNED, assigned_agent := Some (agent_id best_agent)\<rparr>)
                    (tasks s),
                 agents := update_agent (agent_id best_agent)
                    (\<lambda>a. a\<lparr>current_task := Some (task_id task)\<rparr>) (agents s)\<rparr>
          else s)"

definition available_tasks :: "Orchestrator \<Rightarrow> Task list" where
  "available_tasks s = filter (\<lambda>t. task_status t = PENDING) (tasks s)"

definition assign_tasks :: "Orchestrator \<Rightarrow> Orchestrator" where
  "assign_tasks s = fold assign_step (available_tasks s) s"

subsection \<open>One execution\<close>

text \<open>
  \<^verbatim>\<open>execute_task\<close> is a coroutine. It runs without suspension up to
  \<^verbatim>\<open>await self._run_auggie_command(...)\<close> (\<open>execute_start\<close>), and from the end of that
  await to its own end (\<open>execute_resume\<close>); \<^verbatim>\<open>_merge_task_results\<close> has no await of its
  own. The await ends in one of three ways: the worker's return code, an exception, or
  the \<^verbatim>\<open>CancelledError\<close> of a cancelled task, which is a \<^verbatim>\<open>BaseException\<close> and passes the
  handler \<^verbatim>\<open>except Exception\<close>, so only the \<^verbatim>\<open>finally\<close> block runs. The merge-back, inside
  the same \<^verbatim>\<open>try\<close>, returns or raises (it copies files).
\<close>

datatype run_outcome = Returncode int | RunException | RunCancelled

datatype merge_outcome = MergeDone | MergeException

record exec_result =
  final :: Orchestrator
  merge_invoked :: bool
  returned :: "bool option"

definition set_task_status :: "string \<Rightarrow> TaskStatus \<Rightarrow> Orchestrator \<Rightarrow> Orchestrator" where
  "set_task_status t st s = s\<lparr>tasks := update_task t (\<lambda>x. x\<lparr>task_status := st\<rparr>) (tasks s)\<rparr>"

definition execute_start :: "string \<Rightarrow> string \<Rightarrow> Orchestrator \<Rightarrow> Orchestrator" where
  "execute_start a t s =
     (set_task_status t IN_PROGRESS s)
       \<lparr>agents := update_agent a (\<lambda>x. x\<lparr>agent_status := ''working''\<rparr>) (agents s)\<rparr>"

text \<open>The \<^verbatim>\<open>finally\<close> block.\<close>

definition release_agent :: "string \<Rightarrow> Orchestrator \<Rightarrow> Orchestrator" where
  "release_agent a s =
     s\<lparr>agents := update_agent a (\<lambda>x. x\<lparr>agent_status := ''idle'', current_task := None\<rparr>) (agents s)\<rparr>"

definition record_output :: "string \<Rightarrow> string \<Rightarrow> Orchestrator \<Rightarrow> Orchestrator" where
  "record_output a t s =
     (case lookup_agent (agents s) a of
        None \<Rightarrow> s
      | Some agent \<Rightarrow>
          s\<lparr>tasks := update_task t
               (\<lambda>x. x\<lparr>output_path := Some (working_dir agent @ ''/output'')\<rparr>) (tasks s)\<rparr>)"

definition execute_resume ::
  "string \<Rightarrow> string \<Rightarrow> run_outcome \<Rightarrow> merge_outcome \<Rightarrow> Orchestrator \<Rightarrow> exec_result" where
  "execute_resume a t ro mo s =
     (case ro of
        Returncode rc \<Rightarrow>
          if rc = 0 then
            (let s1 = record_output a t (set_task_status t COMPLETED s) in
             case mo of
               MergeDone \<Rightarrow>
                 \<lparr>final = release_agent a s1, merge_invoked = True, returned = Some True\<rparr>
             | MergeException \<Rightarrow>
                 \<lparr>final = release_agent a (set_task_status t FAILED s1),
                  merge_invoked = True, returned = Some False\<rparr>)
          else
            \<lparr>final = release_agent a (set_task_status t FAILED s),
             merge_invoked = False, returned = Some False\<rparr>
      | RunException \<Rightarrow>
          \<lparr>final = release_agent a (set_task_status t FAILED s),
           merge_invoked = False, returned = Some False\<rparr>
      | RunCancelled \<Rightarrow>
          \<lparr>final = release_agent a s, merge_invoked = False, returned = None\<rparr>)"

definition execute_task ::
  "string \<Rightarrow> string \<Rightarrow> run_outcome \<Rightarrow> merge_outcome \<Rightarrow> Orchestrator \<Rightarrow> exec_result" where
  "execute_task a t ro mo s = execute_resume a t ro mo (execute_start a t s)"

subsection \<open>The orchestration loop\<close>

text \<open>
  The body of \<^verbatim>\<open>while True\<close> in \<^verbatim>\<open>orchestrate\<close>, on the interpreter the repository
  declares (\<^verbatim>\<open>requires-python = ">=3.11"\<close>). After the assign phase the loop collects one
  coroutine object \<^verbatim>\<open>self.execute_task(agent, task)\<close> for every agent that holds a task
  in status \<open>ASSIGNED\<close>; creating the object runs nothing of \<^verbatim>\<open>execute_task\<close>. When the
  list is not empty it is passed to \<^verbatim>\<open>asyncio.wait\<close>, which from Python 3.11 on refuses
  coroutine objects: it raises \<^verbatim>\<open>TypeError\<close> ("Passing coroutines is forbidden, use tasks
  explicitly") before any of them starts, and the exception leaves \<^verbatim>\<open>orchestrate\<close>. So
  inside a run of the loop no execution starts, ends or is cancelled, and the state at
  the end of a round is the state after its assign phase.

  \<^verbatim>\<open>if agent.current_task:\<close> is false for \<^verbatim>\<open>None\<close> and for the empty string.
  \<^verbatim>\<open>self.tasks[agent.current_task]\<close> raises \<^verbatim>\<open>KeyError\<close> for an unknown key: the value
  \<open>None\<close> of \<open>active_tasks\<close>.
\<close>

definition truthy :: "string option \<Rightarrow> bool" where
  "truthy x = (case x of None \<Rightarrow> False | Some i \<Rightarrow> i \<noteq> [])"

fun active_tasks :: "Task list \<Rightarrow> AuggieAgent list \<Rightarrow> (string \<times> string) list option" where
  "active_tasks ts [] = Some []"
| "active_tasks ts (agent # as) =
     (case current_task agent of
        None \<Rightarrow> active_tasks ts as
      | Some i \<Rightarrow>
          if i = [] then active_tasks ts as
          else (case lookup_task ts i of
                  None \<Rightarrow> None
                | Some task \<Rightarrow>
                    (case active_tasks ts as of
                       None \<Rightarrow> None
                     | Some rest \<Rightarrow>
                         Some (if task_status task = ASSIGNED
                               then (agent_id agent, task_id task) # rest else rest))))"

definition remaining_tasks :: "Orchestrator \<Rightarrow> Task list" where
  "remaining_tasks s =
     filter (\<lambda>t. task_status t \<noteq> COMPLETED \<and> task_status t \<noteq> FAILED) (tasks s)"

text \<open>
  One round: the state it leaves, and how it ends. It raises \<^verbatim>\<open>KeyError\<close> or
  \<^verbatim>\<open>TypeError\<close>, or reaches the \<^verbatim>\<open>break\<close> after "All tasks completed!", or goes on to
  \<^verbatim>\<open>asyncio.sleep(1)\<close> and the next round.
\<close>

datatype error = KeyError | TypeError

datatype round_end = Raises error | Break | Continue

definition orchestrate_round :: "Orchestrator \<Rightarrow> Orchestrator \<times> round_end" where
  "orchestrate_round s =
     (let s1 = assign_tasks s in
      case active_tasks (tasks s1) (agents s1) of
        None \<Rightarrow> (s1, Raises KeyError)
      | Some act \<Rightarrow>
          if act \<noteq> [] then (s1, Raises TypeError)
          else if remaining_tasks s1 = [] then (s1, Break)
          else (s1, Continue))"

text \<open>
  The loop, with fuel: \<open>None\<close> is a loop still running when the fuel is spent. A run
  ends by the \<^verbatim>\<open>break\<close> or by an exception, in the state the last round left.
\<close>

datatype run_end = AllCompleted Orchestrator | Raised error Orchestrator

fun orchestrate :: "nat \<Rightarrow> Orchestrator \<Rightarrow> run_end option" where
  "orchestrate 0 s = None"
| "orchestrate (Suc fuel) s =
     (case orchestrate_round s of
        (s1, r) \<Rightarrow>
          (case r of
             Raises e \<Rightarrow> Some (Raised e s1)
           | Break \<Rightarrow> Some (AllCompleted s1)
           | Continue \<Rightarrow> orchestrate fuel s1))"

definition end_state :: "run_end \<Rightarrow> Orchestrator" where
  "end_state r = (case r of AllCompleted s \<Rightarrow> s | Raised e s \<Rightarrow> s)"

text \<open>
  The states a run passes through in its first \<open>n\<close> rounds: the state at the head of
  each round and the state after each iteration of its assign phase, the last of which
  is the state the round leaves.
\<close>

fun steps :: "('a \<Rightarrow> 's \<Rightarrow> 's) \<Rightarrow> 'a list \<Rightarrow> 's \<Rightarrow> 's list" where
  "steps f [] s = []"
| "steps f (x # xs) s = f x s # steps f xs (f x s)"

fun run_states :: "nat \<Rightarrow> Orchestrator \<Rightarrow> Orchestrator list" where
  "run_states 0 s = [s]"
| "run_states (Suc n) s =
     s # steps assign_step (available_tasks s) s @
     (if snd (orchestrate_round s) = Continue then run_states n (fst (orchestrate_round s))
      else [])"

text \<open>
  The property of claim C1: two distinct tasks in progress with a common file are both
  parallel-safe.
\<close>

definition exclusive_files :: "Orchestrator \<Rightarrow> bool" where
  "exclusive_files s =
     list_all (\<lambda>t. list_all (\<lambda>u.
        if task_id t \<noteq> task_id u \<and> task_status t = IN_PROGRESS \<and>
           task_status u = IN_PROGRESS \<and> set (files t) \<inter> set (files u) \<noteq> {}
        then parallel_safe t \<and> parallel_safe u else True) (tasks s)) (tasks s)"

text \<open>
  A stall: pending tasks remain, none of them passes \<^verbatim>\<open>_can_assign_task\<close>, and no agent
  holds a task, so nothing is in flight and nothing is put on the launch list.
\<close>

definition stalled :: "Orchestrator \<Rightarrow> bool" where
  "stalled s =
     (available_tasks s \<noteq> [] \<and>
      list_all (\<lambda>t. \<not> can_assign_task s t) (available_tasks s) \<and>
      list_all (\<lambda>a. \<not> truthy (current_task a)) (agents s))"

text \<open>
  The property of claim C6, for every agent: \<^verbatim>\<open>status == "working"\<close> if and only if
  \<^verbatim>\<open>current_task\<close> is set.
\<close>

definition agents_consistent :: "Orchestrator \<Rightarrow> bool" where
  "agents_consistent s =
     list_all (\<lambda>a. (agent_status a = ''working'') = truthy (current_task a)) (agents s)"

text \<open>
  Every agent is free: idle, holding no task. The amended property of claim C6: an agent
  is consistent, or idle with a task in status \<open>ASSIGNED\<close>. \<open>linked\<close> is the state of the
  agents after an assign phase: all idle, each non-empty \<^verbatim>\<open>current_task\<close> an assigned task
  that names the agent.
\<close>

definition all_free :: "Orchestrator \<Rightarrow> bool" where
  "all_free s =
     list_all (\<lambda>a. agent_status a = ''idle'' \<and> \<not> truthy (current_task a)) (agents s)"

definition holds_assigned :: "Orchestrator \<Rightarrow> AuggieAgent \<Rightarrow> bool" where
  "holds_assigned s a =
     (case current_task a of None \<Rightarrow> False | Some t \<Rightarrow> status_of s t = Some ASSIGNED)"

definition consistent_or_reserved :: "Orchestrator \<Rightarrow> bool" where
  "consistent_or_reserved s =
     list_all (\<lambda>a. (agent_status a = ''working'') = truthy (current_task a) \<or>
                   (agent_status a = ''idle'' \<and> holds_assigned s a)) (agents s)"

definition linked :: "Orchestrator \<Rightarrow> bool" where
  "linked s =
     list_all (\<lambda>a. agent_status a = ''idle'' \<and>
        (case current_task a of
           None \<Rightarrow> True
         | Some t \<Rightarrow>
             t = [] \<or>
             (case lookup_task (tasks s) t of
                None \<Rightarrow> False
              | Some task \<Rightarrow>
                  task_status task = ASSIGNED \<and> assigned_agent task = Some (agent_id a))))
       (agents s)"

text \<open>
  Between two states of a run: every task has the status it had, or has gone from
  \<open>PENDING\<close> to \<open>ASSIGNED\<close>. No task has been marked \<open>FAILED\<close> or put back to \<open>PENDING\<close>.
\<close>

definition advanced :: "Orchestrator \<Rightarrow> Orchestrator \<Rightarrow> bool" where
  "advanced s s' =
     list_all (\<lambda>t. status_of s' (task_id t) = Some (task_status t) \<or>
                   (task_status t = PENDING \<and> status_of s' (task_id t) = Some ASSIGNED))
       (tasks s)"

subsection \<open>Concrete orchestrators\<close>

text \<open>
  The dataclass constructors with their defaults: a new task is \<open>PENDING\<close> with no
  agent and no output, a new agent is idle with no task and works in
  \<^verbatim>\<open>work-<id>\<close> (\<^verbatim>\<open>initialize_agents\<close>).
\<close>

definition new_task ::
  "string \<Rightarrow> string \<Rightarrow> string \<Rightarrow> string list \<Rightarrow> string list \<Rightarrow> bool \<Rightarrow> Task" where
  "new_task i d c fs deps ps =
     \<lparr>task_id = i, description = d, component = c, files = fs, dependencies = deps,
      parallel_safe = ps, estimated_effort = 1, task_status = PENDING,
      assigned_agent = None, output_path = None\<rparr>"

definition new_agent :: "string \<Rightarrow> string \<Rightarrow> string \<Rightarrow> AuggieAgent" where
  "new_agent i n sp =
     \<lparr>agent_id = i, name = n, specialization = sp, working_dir = ''work-'' @ i,
      agent_status = ''idle'', current_task = None\<rparr>"

definition backend_agent :: AuggieAgent where
  "backend_agent = new_agent ''backend'' ''Backend Specialist'' ''backend''"

definition frontend_agent :: AuggieAgent where
  "frontend_agent = new_agent ''frontend'' ''Frontend Specialist'' ''frontend''"

text \<open>One agent holding one assigned task: the state in which an execution starts.\<close>

definition api_task :: Task where
  "api_task = (new_task ''T1'' ''Build the API'' ''backend-api'' [''api.py''] [] False)
     \<lparr>task_status := ASSIGNED, assigned_agent := Some ''backend''\<rparr>"

definition one_assigned :: Orchestrator where
  "one_assigned =
     \<lparr>agents = [backend_agent\<lparr>current_task := Some ''T1''\<rparr>], tasks = [api_task]\<rparr>"

definition ui_task :: Task where
  "ui_task = (new_task ''T2'' ''Build the page'' ''frontend-ui'' [''page.js''] [] True)
     \<lparr>task_status := ASSIGNED, assigned_agent := Some ''frontend''\<rparr>"

definition ui_assigned :: Orchestrator where
  "ui_assigned =
     \<lparr>agents = [frontend_agent\<lparr>current_task := Some ''T2''\<rparr>], tasks = [ui_task]\<rparr>"

text \<open>One idle agent and two pending tasks without prerequisites.\<close>

definition two_tasks_one_agent :: Orchestrator where
  "two_tasks_one_agent =
     \<lparr>agents = [backend_agent],
      tasks = [new_task ''T1'' ''Build the API'' ''backend-api'' [''api.py''] [] False,
               new_task ''T2'' ''Build the store'' ''backend-db'' [''db.py''] [] False]\<rparr>"

text \<open>Two agents whose specialization tags are capitalised, and a task for the second.\<close>

definition capital_task :: Task where
  "capital_task = new_task ''T1'' ''Build the API'' ''Backend-API'' [''api.py''] [] False"

definition capital_agents :: Orchestrator where
  "capital_agents =
     \<lparr>agents = [new_agent ''frontend'' ''Frontend Specialist'' ''Frontend'',
                new_agent ''backend'' ''Backend Specialist'' ''Backend''],
      tasks = [capital_task]\<rparr>"

text \<open>A pending task beside a task in progress on the same file.\<close>

definition running_task :: Task where
  "running_task = (new_task ''T1'' ''Build the API'' ''backend-api'' [''api.py''] [] False)
     \<lparr>task_status := IN_PROGRESS, assigned_agent := Some ''backend''\<rparr>"

definition candidate_task :: Task where
  "candidate_task = new_task ''T2'' ''Document the API'' ''docs'' [''api.py'', ''README.md''] [] False"

definition one_running :: Orchestrator where
  "one_running =
     \<lparr>agents = [backend_agent\<lparr>agent_status := ''working'', current_task := Some ''T1''\<rparr>,
                frontend_agent],
      tasks = [running_task, candidate_task]\<rparr>"

text \<open>Two idle agents and two pending tasks on the same file, the second parallel-safe.\<close>

definition shared_file :: Orchestrator where
  "shared_file =
     \<lparr>agents = [backend_agent, frontend_agent],
      tasks = [new_task ''T1'' ''Build the API'' ''backend-api'' [''shared.py''] [] False,
               new_task ''T2'' ''Build the page'' ''frontend-ui'' [''shared.py''] [] True]\<rparr>"

text \<open>A task whose only prerequisite is not a task of the graph.\<close>

definition orphan_task :: Task where
  "orphan_task = new_task ''T1'' ''Build the API'' ''backend-api'' [''api.py''] [''T0''] False"

definition missing_prerequisite :: Orchestrator where
  "missing_prerequisite = \<lparr>agents = [backend_agent], tasks = [orphan_task]\<rparr>"

text \<open>A pending task beside a task in progress on another file, and an idle agent.\<close>

definition page_task :: Task where
  "page_task = new_task ''T3'' ''Build the page'' ''frontend-ui'' [''page.js''] [] False"

definition disjoint_running :: Orchestrator where
  "disjoint_running =
     \<lparr>agents = [backend_agent\<lparr>agent_status := ''working'', current_task := Some ''T1''\<rparr>,
                frontend_agent],
      tasks = [running_task, page_task]\<rparr>"

text \<open>Two tasks that wait for each other.\<close>

definition deadlock :: Orchestrator where
  "deadlock =
     \<lparr>agents = [backend_agent],
      tasks = [new_task ''T1'' ''Build the API'' ''backend-api'' [''api.py''] [''T2''] False,
               new_task ''T2'' ''Build the store'' ''backend-db'' [''db.py''] [''T1''] False]\<rparr>"

text \<open>A pending task whose prerequisite has failed.\<close>

definition failed_prerequisite :: Orchestrator where
  "failed_prerequisite =
     \<lparr>agents = [backend_agent],
      tasks = [(new_task ''T1'' ''Build the API'' ''backend-api'' [''api.py''] [] False)
                 \<lparr>task_status := FAILED, assigned_agent := Some ''backend''\<rparr>,
               new_task ''T2'' ''Build the store'' ''backend-db'' [''db.py''] [''T1''] False]\<rparr>"

text \<open>Two idle agents and two independent pending tasks, one for each.\<close>

definition two_pending :: Orchestrator where
  "two_pending =
     \<lparr>agents = [backend_agent, frontend_agent],
      tasks = [new_task ''T1'' ''Build the API'' ''backend-api'' [''api.py''] [] False,
               new_task ''T2'' ''Build the page'' ''frontend-ui'' [''page.js''] [] False]\<rparr>"

text \<open>One idle agent and one pending task.\<close>

definition single_pending :: Orchestrator where
  "single_pending =
     \<lparr>agents = [backend_agent],
      tasks = [new_task ''T1'' ''Build the API'' ''backend-api'' [''api.py''] [] False]\<rparr>"

section \<open>Properties\<close>

subsection \<open>Lookups and updates\<close>

lemma lookup_task_SomeD:
  "lookup_task ts i = Some u \<Longrightarrow> u \<in> set ts \<and> task_id u = i"
  by (auto simp: lookup_task_def find_Some_iff)

lemma lookup_task_distinct:
  "distinct (map task_id ts) \<Longrightarrow> u \<in> set ts \<Longrightarrow> lookup_task ts (task_id u) = Some u"
  by (induction ts) (auto simp: lookup_task_def)

lemma lookup_task_update:
  assumes "\<And>x. task_id (f x) = task_id x"
  shows "lookup_task (update_task i f ts) j =
         (if j = i then map_option f (lookup_task ts j) else lookup_task ts j)"
  using assms by (induction ts) (auto simp: lookup_task_def update_task_def)

lemma lookup_agent_update:
  assumes "\<And>x. agent_id (f x) = agent_id x"
  shows "lookup_agent (update_agent i f as) j =
         (if j = i then map_option f (lookup_agent as j) else lookup_agent as j)"
  using assms by (induction as) (auto simp: lookup_agent_def update_agent_def)

lemma status_of_set_task_status:
  "status_of (set_task_status t st s) j =
     (if j = t then map_option (\<lambda>_. st) (status_of s j) else status_of s j)"
  by (simp add: status_of_def set_task_status_def lookup_task_update option.map_comp comp_def)

lemma status_of_release_agent [simp]: "status_of (release_agent a s) j = status_of s j"
  by (simp add: status_of_def release_agent_def)

lemma status_of_record_output [simp]: "status_of (record_output a t s) j = status_of s j"
  by (auto simp: status_of_def record_output_def lookup_task_update option.map_comp comp_def
      split: option.splits)

lemma status_of_execute_start:
  "status_of (execute_start a t s) j =
     (if j = t then map_option (\<lambda>_. IN_PROGRESS) (status_of s j) else status_of s j)"
  by (simp add: execute_start_def status_of_def set_task_status_def lookup_task_update
      option.map_comp comp_def)

lemma agents_set_task_status [simp]: "agents (set_task_status t st s) = agents s"
  by (simp add: set_task_status_def)

lemma agents_record_output [simp]: "agents (record_output a t s) = agents s"
  by (simp add: record_output_def split: option.splits)

lemma lookup_agent_release:
  "lookup_agent (agents (release_agent a s)) a =
     map_option (\<lambda>x. x\<lparr>agent_status := ''idle'', current_task := None\<rparr>)
       (lookup_agent (agents s) a)"
  by (simp add: release_agent_def lookup_agent_update)

subsection \<open>One execution\<close>

lemma agents_final_execute_resume:
  "agents (final (execute_resume a t ro mo s)) = agents (release_agent a s)"
  by (simp add: execute_resume_def release_agent_def Let_def
      split: run_outcome.splits merge_outcome.splits)

text \<open>What an execution's end writes into the status of each task.\<close>

lemma status_of_execute_resume:
  "status_of (final (execute_resume a t ro mo s)) j =
     (if j = t then
        map_option (\<lambda>st. case ro of
            Returncode rc \<Rightarrow>
              if rc = 0 then (case mo of MergeDone \<Rightarrow> COMPLETED | MergeException \<Rightarrow> FAILED)
              else FAILED
          | RunException \<Rightarrow> FAILED
          | RunCancelled \<Rightarrow> st) (status_of s j)
      else status_of s j)"
  by (cases "status_of s j")
     (auto simp: execute_resume_def Let_def status_of_set_task_status
      split: run_outcome.splits merge_outcome.splits)

text \<open>
  Claim C7. For every execution of an existing task by an existing agent: on a failure
  signal from the worker boundary (a non-zero return code) or an error raised on the way
  to the worker's result (by the worker boundary itself or before it), the task ends
  \<open>FAILED\<close> and the merge-back is not invoked; and in all cases (success, failure, an
  error of any kind, a cancellation) the last step leaves the agent idle with no current
  task.
\<close>

theorem execute_task_failure_and_release:
  assumes "lookup_task (tasks s) t = Some task" and "lookup_agent (agents s) a = Some agent"
  shows "(ro = RunException \<or> (\<exists>rc. ro = Returncode rc \<and> rc \<noteq> 0) \<longrightarrow>
           status_of (final (execute_task a t ro mo s)) t = Some FAILED \<and>
           \<not> merge_invoked (execute_task a t ro mo s)) \<and>
         map_option (\<lambda>x. (agent_status x, current_task x))
           (lookup_agent (agents (final (execute_task a t ro mo s))) a) = Some (''idle'', None)"
proof -
  have st: "status_of s t = Some (task_status task)"
    using assms(1) by (simp add: status_of_def)
  have ag: "lookup_agent (agents (execute_start a t s)) a =
      Some (agent\<lparr>agent_status := ''working''\<rparr>)"
    using assms(2) by (simp add: execute_start_def lookup_agent_update)
  have 1: "ro = RunException \<or> (\<exists>rc. ro = Returncode rc \<and> rc \<noteq> 0) \<longrightarrow>
           status_of (final (execute_task a t ro mo s)) t = Some FAILED \<and>
           \<not> merge_invoked (execute_task a t ro mo s)"
    using st by (auto simp: execute_task_def status_of_set_task_status status_of_execute_start
        execute_resume_def)
  have 3: "map_option (\<lambda>x. (agent_status x, current_task x))
           (lookup_agent (agents (final (execute_task a t ro mo s))) a) = Some (''idle'', None)"
    using ag by (simp add: execute_task_def agents_final_execute_resume lookup_agent_release)
  from 1 3 show ?thesis by blast
qed

theorem execute_task_failure_and_release_witness:
  "lookup_task (tasks one_assigned) ''T1'' = Some api_task \<and>
   lookup_agent (agents one_assigned) ''backend'' =
     Some (backend_agent\<lparr>current_task := Some ''T1''\<rparr>) \<and>
   status_of (final (execute_task ''backend'' ''T1'' (Returncode 1) MergeDone one_assigned)) ''T1''
     = Some FAILED \<and>
   \<not> merge_invoked (execute_task ''backend'' ''T1'' (Returncode 1) MergeDone one_assigned) \<and>
   status_of (final (execute_task ''backend'' ''T1'' RunException MergeDone one_assigned)) ''T1''
     = Some FAILED \<and>
   \<not> merge_invoked (execute_task ''backend'' ''T1'' RunException MergeDone one_assigned) \<and>
   map_option (\<lambda>x. (agent_status x, current_task x))
     (lookup_agent
        (agents (final (execute_task ''backend'' ''T1'' (Returncode 1) MergeDone one_assigned)))
        ''backend'') = Some (''idle'', None)"
proof -
  have h1: "lookup_task (tasks one_assigned) ''T1'' = Some api_task"
    by (simp add: one_assigned_def api_task_def new_task_def lookup_task_def)
  have h2: "lookup_agent (agents one_assigned) ''backend'' =
      Some (backend_agent\<lparr>current_task := Some ''T1''\<rparr>)"
    by (simp add: one_assigned_def backend_agent_def new_agent_def lookup_agent_def)
  show ?thesis
    using execute_task_failure_and_release [OF h1 h2, of "Returncode 1" MergeDone]
      execute_task_failure_and_release [OF h1 h2, of RunException MergeDone] h1 h2
    by simp
qed

text \<open>
  Claim C10, amended. For every execution of an existing task: \<^verbatim>\<open>execute_task\<close> returns
  \<^verbatim>\<open>True\<close> exactly when the task's status at return is \<open>COMPLETED\<close> and \<^verbatim>\<open>False\<close> exactly
  when it is \<open>FAILED\<close>; the merge-back is invoked on every path that returns \<^verbatim>\<open>True\<close>, and
  on a path that does not return \<^verbatim>\<open>True\<close> exactly when the worker returned 0 and the
  merge-back itself raised.
\<close>

theorem execute_task_return_value:
  assumes "lookup_task (tasks s) t = Some task"
  shows "(returned (execute_task a t ro mo s) = Some True \<longleftrightarrow>
            status_of (final (execute_task a t ro mo s)) t = Some COMPLETED) \<and>
         (returned (execute_task a t ro mo s) = Some False \<longleftrightarrow>
            status_of (final (execute_task a t ro mo s)) t = Some FAILED) \<and>
         (returned (execute_task a t ro mo s) = Some True \<longrightarrow>
            merge_invoked (execute_task a t ro mo s)) \<and>
         (merge_invoked (execute_task a t ro mo s) \<and>
            returned (execute_task a t ro mo s) \<noteq> Some True \<longleftrightarrow>
            ro = Returncode 0 \<and> mo = MergeException)"
proof -
  have "status_of s t = Some (task_status task)"
    using assms by (simp add: status_of_def)
  then have st: "status_of (execute_start a t s) t = Some IN_PROGRESS"
    by (simp add: status_of_execute_start)
  show ?thesis
    unfolding execute_task_def status_of_execute_resume
    using st by (cases ro; cases mo) (auto simp: execute_resume_def Let_def)
qed

theorem execute_task_return_value_witness:
  "lookup_task (tasks ui_assigned) ''T2'' = Some ui_task \<and>
   returned (execute_task ''frontend'' ''T2'' (Returncode 0) MergeDone ui_assigned) = Some True \<and>
   status_of (final (execute_task ''frontend'' ''T2'' (Returncode 0) MergeDone ui_assigned)) ''T2''
     = Some COMPLETED \<and>
   merge_invoked (execute_task ''frontend'' ''T2'' (Returncode 0) MergeDone ui_assigned)"
proof -
  have h: "lookup_task (tasks ui_assigned) ''T2'' = Some ui_task"
    by (simp add: ui_assigned_def ui_task_def new_task_def lookup_task_def)
  have r: "returned (execute_task ''frontend'' ''T2'' (Returncode 0) MergeDone ui_assigned)
      = Some True"
    by (simp add: execute_task_def execute_resume_def Let_def)
  show ?thesis
    using execute_task_return_value [OF h, of "''frontend''" "Returncode 0" MergeDone] h r
    by simp
qed

text \<open>
  Claim C10 as stated fails on the path where the merge-back raises: it has been
  invoked, and \<^verbatim>\<open>execute_task\<close> returns \<^verbatim>\<open>False\<close>.
\<close>

theorem merge_invoked_on_false_return:
  "returned (execute_task ''frontend'' ''T2'' (Returncode 0) MergeException ui_assigned)
     = Some False \<and>
   merge_invoked (execute_task ''frontend'' ''T2'' (Returncode 0) MergeException ui_assigned)"
  by (simp add: execute_task_def execute_resume_def Let_def)

subsection \<open>The matcher\<close>

text \<open>
  The head of a stable sort: the first element of the input with the least key.
\<close>

lemma sort_key_Cons_first:
  assumes "sort_key f xs = y # ys"
  shows "\<exists>pre post. xs = pre @ y # post \<and> (\<forall>z\<in>set pre. f y < f z) \<and>
           (\<forall>z\<in>set post. f y \<le> f z)"
proof -
  have srt: "sorted (map f (y # ys))"
    using sorted_sort_key [of f xs] assms by simp
  have mem: "set xs = set (y # ys)"
    using set_sort [of f xs] assms by simp
  have le: "f y \<le> f z" if "z \<in> set xs" for z
    using srt mem that by auto
  have "filter (\<lambda>z. f z = f y) xs = filter (\<lambda>z. f z = f y) (y # ys)"
    using sort_key_stable [of f "f y" xs] assms by simp
  then have "filter (\<lambda>z. f z = f y) xs = y # filter (\<lambda>z. f z = f y) ys"
    by simp
  then obtain pre post where xs: "xs = pre @ y # post" and pre: "\<forall>z\<in>set pre. f z \<noteq> f y"
    by (auto simp: filter_eq_Cons_iff)
  have "\<forall>z\<in>set pre. f y < f z"
    using pre le xs by (auto simp: less_le)
  moreover have "\<forall>z\<in>set post. f y \<le> f z"
    using le xs by auto
  ultimately show ?thesis using xs by blast
qed

text \<open>The matcher returns \<^verbatim>\<open>None\<close> exactly when no agent is idle.\<close>

lemma find_best_agent_None_iff:
  "find_best_agent_for_task s task = None \<longleftrightarrow>
     filter (\<lambda>a. agent_status a = ''idle'') (agents s) = []"
proof -
  have "sort_reverse xs \<noteq> []" if "xs \<noteq> []" for xs
    using that length_sort [of "\<lambda>x. - fst x" xs]
    by (auto simp: sort_reverse_def simp del: length_sort)
  then show ?thesis
    by (auto simp: find_best_agent_for_task_def Let_def split: list.splits)
qed

text \<open>
  The agent it returns is the first idle agent, in registry order, whose \<open>score\<close> is
  the greatest among the idle agents.
\<close>

lemma find_best_agent_first_maximum:
  assumes "find_best_agent_for_task s task = Some best"
  shows "\<exists>pre post. filter (\<lambda>a. agent_status a = ''idle'') (agents s) = pre @ best # post \<and>
           (\<forall>a\<in>set pre. score a task < score best task) \<and>
           (\<forall>a\<in>set post. score a task \<le> score best task)"
proof -
  let ?idle = "filter (\<lambda>a. agent_status a = ''idle'') (agents s)"
  let ?scored = "map (\<lambda>agent. (score agent task, agent)) ?idle"
  from assms obtain x xs where srt: "sort_key (\<lambda>x. - fst x) ?scored = x # xs"
    and best: "best = snd x"
    by (auto simp: find_best_agent_for_task_def Let_def sort_reverse_def
        split: if_splits list.splits)
  from sort_key_Cons_first [OF srt] obtain pre post where
    sc: "?scored = pre @ x # post" and
    pre: "\<forall>z\<in>set pre. - fst x < - fst z" and post: "\<forall>z\<in>set post. - fst x \<le> - fst z"
    by blast
  from sc obtain ipre b ipost where idle: "?idle = ipre @ b # ipost"
    and p1: "pre = map (\<lambda>agent. (score agent task, agent)) ipre"
    and p2: "x = (score b task, b)"
    and p3: "post = map (\<lambda>agent. (score agent task, agent)) ipost"
    by (auto simp: map_eq_append_conv map_eq_Cons_conv)
  from p2 best have "b = best" by simp
  with idle pre post p1 p2 p3 show ?thesis by auto
qed

text \<open>
  The example of the specification: of the agents "backend" and "frontend", the task of
  component "backend-api" goes to "backend", with score 10 against 0.
\<close>

lemma backend_task_goes_to_backend_agent:
  "map_option agent_id
     (find_best_agent_for_task \<lparr>agents = [frontend_agent, backend_agent], tasks = [api_task]\<rparr>
        api_task) = Some ''backend'' \<and>
   score backend_agent api_task = 10 \<and> score frontend_agent api_task = 0"
  by code_simp

text \<open>
  Claim C8 on the code: the score is not case-insensitive. Only the task's component and
  description are lower-cased, the agent's specialization is compared as it is written.
  An agent whose specialization is "Backend" scores 0 on the component "Backend-API",
  and the matcher returns the first idle agent, "Frontend", instead.
\<close>

theorem capital_specialization_never_matches:
  "score (new_agent ''backend'' ''Backend Specialist'' ''Backend'') capital_task = 0 \<and>
   map_option agent_id (find_best_agent_for_task capital_agents capital_task)
     = Some ''frontend''"
  by code_simp

subsection \<open>The eligibility check\<close>

lemma deps_loop_iff:
  "deps_loop ts ds \<longleftrightarrow>
     (\<forall>d\<in>set ds. \<forall>u. lookup_task ts d = Some u \<longrightarrow> task_status u = COMPLETED)"
  by (induction ds) (auto split: option.splits)

lemma conflict_loop_iff:
  "conflict_loop task os \<longleftrightarrow>
     (\<exists>other\<in>set os. task_status other = IN_PROGRESS \<and> task_id other \<noteq> task_id task \<and>
        set (files task) \<inter> set (files other) \<noteq> {})"
  by (induction os) auto

text \<open>
  Claim C9. A candidate is a task of the graph that is not itself in progress (the assign
  phase tests the pending tasks). For every candidate whose prerequisites are all
  completed (here: every prerequisite that resolves to a task), \<^verbatim>\<open>_can_assign_task\<close>
  answers \<^verbatim>\<open>False\<close> if and only if the candidate is not parallel-safe and some task in
  status \<open>IN_PROGRESS\<close> has a file in common with it. In particular a candidate with an
  empty file set is never refused, a running task with an empty file set never satisfies
  the right-hand side, and a parallel-safe candidate is never refused.
\<close>

theorem conflict_check_iff:
  assumes "well_formed s" and "c \<in> set (tasks s)" and "task_status c \<noteq> IN_PROGRESS"
    and "\<forall>d\<in>set (dependencies c). \<forall>u. lookup_task (tasks s) d = Some u \<longrightarrow>
           task_status u = COMPLETED"
  shows "(can_assign_task s c = False \<longleftrightarrow>
            \<not> parallel_safe c \<and>
            (\<exists>u\<in>set (tasks s). task_status u = IN_PROGRESS \<and>
               set (files c) \<inter> set (files u) \<noteq> {})) \<and>
         (files c = [] \<longrightarrow> can_assign_task s c) \<and>
         (parallel_safe c \<longrightarrow> can_assign_task s c)"
proof -
  have deps: "deps_loop (tasks s) (dependencies c)"
    using assms(4) by (simp add: deps_loop_iff)
  have other: "task_id u \<noteq> task_id c"
    if "u \<in> set (tasks s)" "task_status u = IN_PROGRESS" for u
  proof
    assume "task_id u = task_id c"
    with assms(1,2) that(1) have "u = c"
      by (auto simp: well_formed_def distinct_map dest: inj_onD)
    with that(2) assms(3) show False by simp
  qed
  have "conflict_loop c (tasks s) \<longleftrightarrow>
      (\<exists>u\<in>set (tasks s). task_status u = IN_PROGRESS \<and> set (files c) \<inter> set (files u) \<noteq> {})"
    unfolding conflict_loop_iff using other by blast
  with deps show ?thesis
    by (auto simp: can_assign_task_def)
qed

theorem conflict_check_iff_witness:
  "well_formed one_running \<and> candidate_task \<in> set (tasks one_running) \<and>
   task_status candidate_task \<noteq> IN_PROGRESS \<and>
   can_assign_task one_running candidate_task = False \<and>
   \<not> parallel_safe candidate_task \<and>
   task_status running_task = IN_PROGRESS \<and>
   set (files candidate_task) \<inter> set (files running_task) \<noteq> {}"
proof -
  have h1: "well_formed one_running" by code_simp
  have h2: "candidate_task \<in> set (tasks one_running)" by (simp add: one_running_def)
  have h3: "task_status candidate_task \<noteq> IN_PROGRESS" by (simp add: candidate_task_def new_task_def)
  have h4: "\<forall>d\<in>set (dependencies candidate_task).
      \<forall>u. lookup_task (tasks one_running) d = Some u \<longrightarrow> task_status u = COMPLETED"
    by (simp add: candidate_task_def new_task_def)
  have c: "\<not> parallel_safe candidate_task \<and>
      (\<exists>u\<in>set (tasks one_running). task_status u = IN_PROGRESS \<and>
         set (files candidate_task) \<inter> set (files u) \<noteq> {})"
    by (simp add: one_running_def running_task_def candidate_task_def new_task_def)
  have r: "task_status running_task = IN_PROGRESS \<and>
      set (files candidate_task) \<inter> set (files running_task) \<noteq> {}"
    by (simp add: running_task_def candidate_task_def new_task_def)
  show ?thesis
    using conflict_check_iff [OF h1 h2 h3 h4] h1 h2 h3 c r by blast
qed

subsection \<open>The assign phase\<close>

lemma find_best_agent_SomeD:
  assumes "find_best_agent_for_task s task = Some best"
  shows "best \<in> set (agents s) \<and> agent_status best = ''idle''"
proof -
  from find_best_agent_first_maximum [OF assms] obtain pre post where
    "filter (\<lambda>a. agent_status a = ''idle'') (agents s) = pre @ best # post" by blast
  then have "best \<in> set (filter (\<lambda>a. agent_status a = ''idle'') (agents s))" by simp
  then show ?thesis by simp
qed

lemma tasks_assign_step:
  "tasks (assign_step p s) =
     (case find_best_agent_for_task s p of
        None \<Rightarrow> tasks s
      | Some b \<Rightarrow>
          if can_assign_task s p
          then update_task (task_id p)
                 (\<lambda>t. t\<lparr>task_status := ASSIGNED, assigned_agent := Some (agent_id b)\<rparr>) (tasks s)
          else tasks s)"
  by (simp add: assign_step_def split: option.splits)

lemma agents_assign_step:
  "agents (assign_step p s) =
     (case find_best_agent_for_task s p of
        None \<Rightarrow> agents s
      | Some b \<Rightarrow>
          if can_assign_task s p
          then update_agent (agent_id b) (\<lambda>a. a\<lparr>current_task := Some (task_id p)\<rparr>) (agents s)
          else agents s)"
  by (simp add: assign_step_def split: option.splits)

lemma idle_agents_assign_step:
  "map agent_status (agents (assign_step p s)) = map agent_status (agents s)"
  by (auto simp: agents_assign_step update_agent_def split: option.splits)

lemma idle_filter_empty_iff:
  "filter (\<lambda>a. agent_status a = ''idle'') as = [] \<longleftrightarrow> ''idle'' \<notin> set (map agent_status as)"
  by (induction as) auto

lemma no_idle_assign_step:
  "filter (\<lambda>a. agent_status a = ''idle'') (agents (assign_step p s)) = [] \<longleftrightarrow>
   filter (\<lambda>a. agent_status a = ''idle'') (agents s) = []"
  unfolding idle_filter_empty_iff idle_agents_assign_step ..

lemma lookup_task_assign_step_other:
  "j \<noteq> task_id p \<Longrightarrow> lookup_task (tasks (assign_step p s)) j = lookup_task (tasks s) j"
  by (simp add: tasks_assign_step lookup_task_update split: option.splits)

lemma mem_tasks_assign_step_other:
  "task_id u \<noteq> task_id p \<Longrightarrow> u \<in> set (tasks (assign_step p s)) \<longleftrightarrow> u \<in> set (tasks s)"
  by (auto simp: tasks_assign_step update_task_def split: option.splits)

lemma task_ids_assign_step:
  "map task_id (tasks (assign_step p s)) = map task_id (tasks s)"
  by (auto simp: tasks_assign_step update_task_def split: option.splits)

text \<open>An update that turns pending tasks into assigned ones is invisible to the check.\<close>

lemma deps_loop_update_pending:
  assumes "\<forall>u\<in>set ts. task_id u = i \<longrightarrow> task_status u = PENDING"
  shows "deps_loop (update_task i (\<lambda>t. t\<lparr>task_status := ASSIGNED, assigned_agent := x\<rparr>) ts) ds
         = deps_loop ts ds"
proof (induction ds)
  case Nil
  show ?case by simp
next
  case (Cons d ds)
  show ?case
  proof (cases "lookup_task ts d")
    case None
    then show ?thesis using Cons by (auto simp: lookup_task_update)
  next
    case (Some u)
    then have "u \<in> set ts" "task_id u = d" by (auto dest: lookup_task_SomeD)
    with assms have "d = i \<Longrightarrow> task_status u = PENDING" by blast
    with Some Cons show ?thesis by (auto simp: lookup_task_update)
  qed
qed

lemma conflict_loop_update_pending:
  assumes "\<forall>u\<in>set ts. task_id u = i \<longrightarrow> task_status u = PENDING"
  shows "conflict_loop c (update_task i (\<lambda>t. t\<lparr>task_status := ASSIGNED, assigned_agent := x\<rparr>) ts)
         = conflict_loop c ts"
  using assms by (induction ts) (auto simp: update_task_def)

lemma can_assign_task_assign_step:
  assumes "\<forall>u\<in>set (tasks s). task_id u = task_id p \<longrightarrow> task_status u = PENDING"
  shows "can_assign_task (assign_step p s) t = can_assign_task s t"
  using assms
  by (auto simp: can_assign_task_def tasks_assign_step deps_loop_update_pending
      conflict_loop_update_pending split: option.splits)

lemma status_of_assign_step_self:
  assumes "lookup_task (tasks s) (task_id p) = Some u"
  shows "status_of (assign_step p s) (task_id p) =
     Some (if filter (\<lambda>a. agent_status a = ''idle'') (agents s) \<noteq> [] \<and> can_assign_task s p
           then ASSIGNED else task_status u)"
proof (cases "find_best_agent_for_task s p")
  case None
  then have "filter (\<lambda>a. agent_status a = ''idle'') (agents s) = []"
    using find_best_agent_None_iff [of s p] by simp
  then show ?thesis using assms None
    by (simp add: status_of_def tasks_assign_step)
next
  case (Some b)
  then have "filter (\<lambda>a. agent_status a = ''idle'') (agents s) \<noteq> []"
    using find_best_agent_None_iff [of s p] by simp
  then show ?thesis using assms Some
    by (simp add: status_of_def tasks_assign_step lookup_task_update)
qed

lemma lookup_task_fold_assign_other:
  "j \<notin> task_id ` set ps \<Longrightarrow>
   lookup_task (tasks (fold assign_step ps s)) j = lookup_task (tasks s) j"
  by (induction ps arbitrary: s) (auto simp: lookup_task_assign_step_other)

lemma status_of_fold_assign:
  assumes "distinct (map task_id ps)"
    and "\<forall>p\<in>set ps. \<forall>u\<in>set (tasks s). task_id u = task_id p \<longrightarrow> task_status u = PENDING"
    and "t \<in> set ps" and "lookup_task (tasks s) (task_id t) = Some u"
  shows "status_of (fold assign_step ps s) (task_id t) =
     Some (if filter (\<lambda>a. agent_status a = ''idle'') (agents s) \<noteq> [] \<and> can_assign_task s t
           then ASSIGNED else PENDING)"
  using assms
proof (induction ps arbitrary: s u)
  case Nil
  then show ?case by simp
next
  case (Cons p ps)
  have pend: "\<forall>x\<in>set (tasks s). task_id x = task_id p \<longrightarrow> task_status x = PENDING"
    using Cons.prems(2) by simp
  show ?case
  proof (cases "t = p")
    case True
    have "u \<in> set (tasks s)" "task_id u = task_id p"
      using Cons.prems(4) True by (auto dest: lookup_task_SomeD)
    with pend have u: "task_status u = PENDING" by blast
    have "task_id p \<notin> task_id ` set ps" using Cons.prems(1) by simp
    then have "status_of (fold assign_step (p # ps) s) (task_id p) =
        status_of (assign_step p s) (task_id p)"
      by (simp add: status_of_def lookup_task_fold_assign_other)
    also have "\<dots> = Some (if filter (\<lambda>a. agent_status a = ''idle'') (agents s) \<noteq> [] \<and>
        can_assign_task s p then ASSIGNED else PENDING)"
      using status_of_assign_step_self [of s p u] Cons.prems(4) True u by simp
    finally show ?thesis using True by simp
  next
    case False
    with Cons.prems(3) have tin: "t \<in> set ps" by simp
    from Cons.prems(1) have "task_id p \<notin> task_id ` set ps" by simp
    then have others: "task_id q \<noteq> task_id p" if "q \<in> set ps" for q
      using that by (metis imageI)
    from tin have ne: "task_id t \<noteq> task_id p" by (rule others)
    have d: "distinct (map task_id ps)" using Cons.prems(1) by simp
    have pend': "\<forall>q\<in>set ps. \<forall>x\<in>set (tasks (assign_step p s)).
        task_id x = task_id q \<longrightarrow> task_status x = PENDING"
    proof (intro ballI impI)
      fix q x assume q: "q \<in> set ps" and x: "x \<in> set (tasks (assign_step p s))"
        and e: "task_id x = task_id q"
      from q have "task_id q \<noteq> task_id p" by (rule others)
      with e x have "x \<in> set (tasks s)" by (simp add: mem_tasks_assign_step_other)
      with Cons.prems(2) q e show "task_status x = PENDING" by simp
    qed
    have lk: "lookup_task (tasks (assign_step p s)) (task_id t) = Some u"
      using Cons.prems(4) ne by (simp add: lookup_task_assign_step_other)
    have "status_of (fold assign_step ps (assign_step p s)) (task_id t) =
      Some (if filter (\<lambda>a. agent_status a = ''idle'') (agents (assign_step p s)) \<noteq> [] \<and>
              can_assign_task (assign_step p s) t then ASSIGNED else PENDING)"
      by (rule Cons.IH [OF d pend' tin lk])
    then show ?thesis
      by (simp add: no_idle_assign_step can_assign_task_assign_step [OF pend])
  qed
qed

text \<open>The assign phase, task by task.\<close>

lemma status_of_assign_tasks:
  assumes "well_formed s" and "t \<in> set (tasks s)"
  shows "status_of (assign_tasks s) (task_id t) =
     Some (if task_status t = PENDING \<and>
              filter (\<lambda>a. agent_status a = ''idle'') (agents s) \<noteq> [] \<and> can_assign_task s t
           then ASSIGNED else task_status t)"
proof -
  have dist: "distinct (map task_id (tasks s))" using assms(1) by (simp add: well_formed_def)
  have lk: "lookup_task (tasks s) (task_id t) = Some t"
    using dist assms(2) by (rule lookup_task_distinct)
  have same: "x = y" if "x \<in> set (tasks s)" "y \<in> set (tasks s)" "task_id x = task_id y" for x y
    using dist that by (auto simp: distinct_map dest: inj_onD)
  show ?thesis
  proof (cases "task_status t = PENDING")
    case True
    have 1: "distinct (map task_id (available_tasks s))"
      using dist by (simp add: available_tasks_def distinct_map_filter)
    have 2: "\<forall>p\<in>set (available_tasks s). \<forall>u\<in>set (tasks s).
        task_id u = task_id p \<longrightarrow> task_status u = PENDING"
      using same by (auto simp: available_tasks_def)
    have 3: "t \<in> set (available_tasks s)"
      using True assms(2) by (simp add: available_tasks_def)
    show ?thesis
      using status_of_fold_assign [OF 1 2 3 lk] True by (simp add: assign_tasks_def)
  next
    case False
    have "task_id t \<notin> task_id ` set (available_tasks s)"
    proof
      assume "task_id t \<in> task_id ` set (available_tasks s)"
      then obtain p where "p \<in> set (tasks s)" "task_status p = PENDING" "task_id t = task_id p"
        by (auto simp: available_tasks_def)
      with same [of t p] assms(2) False show False by auto
    qed
    then show ?thesis using lk False
      by (simp add: assign_tasks_def status_of_def lookup_task_fold_assign_other)
  qed
qed

text \<open>
  The file check of the assign phase: when it sets a pending task that is not
  parallel-safe to \<open>ASSIGNED\<close>, no task in status \<open>IN_PROGRESS\<close> has a file in common
  with it; and a task in progress before the assign phase is in progress after it.
\<close>

lemma assigned_task_avoids_running_files:
  assumes "well_formed s" and "t \<in> set (tasks s)" and "task_status t = PENDING"
    and "status_of (assign_tasks s) (task_id t) = Some ASSIGNED"
    and "\<not> parallel_safe t"
    and "u \<in> set (tasks s)" and "task_status u = IN_PROGRESS"
  shows "set (files t) \<inter> set (files u) = {} \<and>
         status_of (assign_tasks s) (task_id u) = Some IN_PROGRESS"
proof -
  have "can_assign_task s t"
    using status_of_assign_tasks [OF assms(1,2)] assms(3,4) by (simp split: if_splits)
  with assms(5) have nc: "\<not> conflict_loop t (tasks s)"
    by (simp add: can_assign_task_def split: if_splits)
  have "task_id u \<noteq> task_id t"
  proof
    assume "task_id u = task_id t"
    with assms(1,2,6) have "u = t" by (auto simp: well_formed_def distinct_map dest: inj_onD)
    with assms(3,7) show False by simp
  qed
  with nc assms(6,7) have "set (files t) \<inter> set (files u) = {}"
    unfolding conflict_loop_iff by blast
  moreover have "status_of (assign_tasks s) (task_id u) = Some IN_PROGRESS"
    using status_of_assign_tasks [OF assms(1,6)] assms(7) by simp
  ultimately show ?thesis by simp
qed

lemma assigned_task_avoids_running_files_example:
  "well_formed disjoint_running \<and>
   status_of disjoint_running ''T3'' = Some PENDING \<and>
   status_of (assign_tasks disjoint_running) ''T3'' = Some ASSIGNED \<and>
   status_of (assign_tasks disjoint_running) ''T1'' = Some IN_PROGRESS \<and>
   set (files page_task) \<inter> set (files running_task) = {}"
proof -
  have h1: "well_formed disjoint_running" by code_simp
  have h2: "page_task \<in> set (tasks disjoint_running)" by (simp add: disjoint_running_def)
  have h3: "task_status page_task = PENDING" by (simp add: page_task_def new_task_def)
  have i1: "task_id page_task = ''T3''" by (simp add: page_task_def new_task_def)
  have i2: "task_id running_task = ''T1''" by (simp add: running_task_def new_task_def)
  have h4: "status_of (assign_tasks disjoint_running) (task_id page_task) = Some ASSIGNED"
    unfolding i1 by code_simp
  have h5: "\<not> parallel_safe page_task" by (simp add: page_task_def new_task_def)
  have h6: "running_task \<in> set (tasks disjoint_running)" by (simp add: disjoint_running_def)
  have h7: "task_status running_task = IN_PROGRESS" by (simp add: running_task_def new_task_def)
  have i3: "status_of disjoint_running ''T3'' = Some PENDING" by code_simp
  show ?thesis
    using assigned_task_avoids_running_files [OF h1 h2 h3 h4 h5 h6 h7] h1 h4 i3
    unfolding i1 i2 by simp
qed

text \<open>
  Claim C2, amended. A prerequisite identifier that resolves to no task is skipped by the
  dependency check. An assign phase sets a pending task to \<open>ASSIGNED\<close> if and only if
  some agent is idle, every prerequisite that resolves to a task is completed, and the task
  is parallel-safe or shares no file with a task in progress.
\<close>

theorem unresolved_prerequisite_ignored:
  assumes "well_formed s" and "t \<in> set (tasks s)" and "task_status t = PENDING"
  shows "status_of (assign_tasks s) (task_id t) = Some ASSIGNED \<longleftrightarrow>
           filter (\<lambda>a. agent_status a = ''idle'') (agents s) \<noteq> [] \<and>
           (\<forall>d\<in>set (dependencies t). \<forall>u. lookup_task (tasks s) d = Some u \<longrightarrow>
              task_status u = COMPLETED) \<and>
           (parallel_safe t \<or>
            \<not> (\<exists>u\<in>set (tasks s). task_status u = IN_PROGRESS \<and>
                 set (files t) \<inter> set (files u) \<noteq> {}))"
proof -
  have other: "task_id u \<noteq> task_id t"
    if "u \<in> set (tasks s)" "task_status u = IN_PROGRESS" for u
  proof
    assume "task_id u = task_id t"
    with assms(1,2) that(1) have "u = t"
      by (auto simp: well_formed_def distinct_map dest: inj_onD)
    with that(2) assms(3) show False by simp
  qed
  have c: "conflict_loop t (tasks s) \<longleftrightarrow>
      (\<exists>u\<in>set (tasks s). task_status u = IN_PROGRESS \<and> set (files t) \<inter> set (files u) \<noteq> {})"
    unfolding conflict_loop_iff using other by blast
  have "status_of (assign_tasks s) (task_id t) = Some ASSIGNED \<longleftrightarrow>
      filter (\<lambda>a. agent_status a = ''idle'') (agents s) \<noteq> [] \<and> can_assign_task s t"
    using status_of_assign_tasks [OF assms(1,2)] assms(3) by simp
  also have "can_assign_task s t \<longleftrightarrow>
      (\<forall>d\<in>set (dependencies t). \<forall>u. lookup_task (tasks s) d = Some u \<longrightarrow>
              task_status u = COMPLETED) \<and>
      (parallel_safe t \<or> \<not> conflict_loop t (tasks s))"
    by (auto simp: can_assign_task_def deps_loop_iff)
  finally show ?thesis unfolding c .
qed

theorem unresolved_prerequisite_ignored_witness:
  "well_formed missing_prerequisite \<and>
   dependencies orphan_task = [''T0''] \<and>
   lookup_task (tasks missing_prerequisite) ''T0'' = None \<and>
   filter (\<lambda>a. agent_status a = ''idle'') (agents missing_prerequisite) \<noteq> [] \<and>
   status_of (assign_tasks missing_prerequisite) ''T1'' = Some ASSIGNED"
proof -
  have h1: "well_formed missing_prerequisite" by code_simp
  have h2: "orphan_task \<in> set (tasks missing_prerequisite)"
    by (simp add: missing_prerequisite_def)
  have h3: "task_status orphan_task = PENDING" by (simp add: orphan_task_def new_task_def)
  have i1: "task_id orphan_task = ''T1''" "dependencies orphan_task = [''T0'']"
    by (simp_all add: orphan_task_def new_task_def)
  have n: "lookup_task (tasks missing_prerequisite) ''T0'' = None"
    by (simp add: lookup_task_def missing_prerequisite_def orphan_task_def new_task_def)
  have idle: "filter (\<lambda>a. agent_status a = ''idle'') (agents missing_prerequisite) \<noteq> []"
    by (simp add: missing_prerequisite_def backend_agent_def new_agent_def)
  have np: "\<not> (\<exists>u\<in>set (tasks missing_prerequisite). task_status u = IN_PROGRESS \<and>
       set (files orphan_task) \<inter> set (files u) \<noteq> {})"
    by (simp add: missing_prerequisite_def orphan_task_def new_task_def)
  have "status_of (assign_tasks missing_prerequisite) ''T1'' = Some ASSIGNED"
    using unresolved_prerequisite_ignored [OF h1 h2 h3] idle n np unfolding i1 by simp
  with h1 i1 n idle show ?thesis by simp
qed

text \<open>
  Claim C2 as stated fails: the task T1, whose single prerequisite T0 is not a task of
  the graph, is set to \<open>ASSIGNED\<close> by the first assign phase.
\<close>

theorem unresolved_prerequisite_assigned:
  "lookup_task (tasks missing_prerequisite) ''T0'' = None \<and>
   map (\<lambda>t. (task_id t, dependencies t, task_status t)) (tasks (assign_tasks missing_prerequisite))
     = [(''T1'', [''T0''], ASSIGNED)]"
  by code_simp

text \<open>
  Claim C3 on the code: an assignment leaves the agent's \<^verbatim>\<open>status\<close> at "idle", and the
  idle pool is chosen by \<^verbatim>\<open>status\<close> alone, so the agent stays in the pool. With one agent
  and two pending tasks, one assign phase assigns both tasks to the same agent; the
  agent's \<^verbatim>\<open>current_task\<close> keeps only the second.
\<close>

theorem one_agent_assigned_twice:
  "map (\<lambda>t. (task_id t, task_status t, assigned_agent t))
       (tasks (assign_tasks two_tasks_one_agent))
     = [(''T1'', ASSIGNED, Some ''backend''), (''T2'', ASSIGNED, Some ''backend'')] \<and>
   map (\<lambda>a. (agent_id a, agent_status a, current_task a))
       (agents (assign_tasks two_tasks_one_agent))
     = [(''backend'', ''idle'', Some ''T2'')]"
  by code_simp

text \<open>
  In general an assign phase changes no agent's \<^verbatim>\<open>status\<close>: the pool of idle agents
  is the same for every task of the round.
\<close>

lemma agent_status_fold_assign:
  "map agent_status (agents (fold assign_step ps s)) = map agent_status (agents s)"
  by (induction ps arbitrary: s) (simp_all add: idle_agents_assign_step)

lemma agent_status_assign_tasks:
  "map agent_status (agents (assign_tasks s)) = map agent_status (agents s)"
  by (simp add: assign_tasks_def agent_status_fold_assign)

text \<open>
  Of the two tasks only the one named by \<^verbatim>\<open>current_task\<close> is put on the launch list of
  the round; the other is \<open>ASSIGNED\<close> and no agent holds it.
\<close>

lemma one_agent_assigned_twice_launch:
  "active_tasks (tasks (assign_tasks two_tasks_one_agent))
     (agents (assign_tasks two_tasks_one_agent)) = Some [(''backend'', ''T2'')]"
  by code_simp

subsection \<open>The orchestration loop\<close>

lemma fold_fixed: "(\<And>x. x \<in> set xs \<Longrightarrow> f x s = s) \<Longrightarrow> fold f xs s = s"
  by (induction xs) auto

lemma fold_invariant:
  "(\<And>x s. x \<in> set xs \<Longrightarrow> I s \<Longrightarrow> I (f x s)) \<Longrightarrow> I s \<Longrightarrow> I (fold f xs s)"
  by (induction xs arbitrary: s) auto

lemma steps_invariant:
  "(\<And>x s. x \<in> set xs \<Longrightarrow> I s \<Longrightarrow> I (f x s)) \<Longrightarrow> I s \<Longrightarrow> list_all I (steps f xs s)"
  by (induction xs arbitrary: s) auto

lemma steps_as_folds:
  "t \<in> set (steps f xs s) \<Longrightarrow> \<exists>ys zs. xs = ys @ zs \<and> t = fold f ys s"
proof (induction xs arbitrary: s)
  case Nil
  then show ?case by simp
next
  case (Cons x xs)
  show ?case
  proof (cases "t = f x s")
    case True
    then have "x # xs = [x] @ xs \<and> t = fold f [x] s" by simp
    then show ?thesis by blast
  next
    case False
    with Cons.prems have "t \<in> set (steps f xs (f x s))" by simp
    from Cons.IH [OF this] obtain ys zs where "xs = ys @ zs" "t = fold f ys (f x s)" by blast
    then have "x # xs = (x # ys) @ zs \<and> t = fold f (x # ys) s" by simp
    then show ?thesis by blast
  qed
qed

lemma fold_in_steps: "fold f xs s \<in> set (s # steps f xs s)"
  by (induction xs arbitrary: s) auto

lemma assign_step_refused: "\<not> can_assign_task s p \<Longrightarrow> assign_step p s = s"
  by (simp add: assign_step_def split: option.splits)

lemma active_tasks_no_holder:
  "list_all (\<lambda>a. \<not> truthy (current_task a)) as \<Longrightarrow> active_tasks ts as = Some []"
  by (induction as) (auto simp: truthy_def split: option.splits)

lemma fst_orchestrate_round [simp]: "fst (orchestrate_round s) = assign_tasks s"
  by (simp add: orchestrate_round_def Let_def split: option.splits)

lemma orchestrate_round_Continue:
  "snd (orchestrate_round s) = Continue \<Longrightarrow>
   active_tasks (tasks (assign_tasks s)) (agents (assign_tasks s)) = Some [] \<and>
   remaining_tasks (assign_tasks s) \<noteq> []"
  by (auto simp: orchestrate_round_def Let_def split: option.splits if_splits)

lemma stalled_round:
  assumes "stalled s"
  shows "orchestrate_round s = (s, Continue)" and "remaining_tasks s \<noteq> []"
proof -
  have a: "assign_tasks s = s"
    unfolding assign_tasks_def using assms
    by (intro fold_fixed assign_step_refused) (auto simp: stalled_def list_all_iff)
  have act: "active_tasks (tasks s) (agents s) = Some []"
    using assms by (simp add: stalled_def active_tasks_no_holder)
  from assms have "available_tasks s \<noteq> []" by (simp add: stalled_def)
  then obtain t where "t \<in> set (available_tasks s)"
    by (cases "available_tasks s") auto
  then have "t \<in> set (remaining_tasks s)"
    by (simp add: remaining_tasks_def available_tasks_def)
  then show r: "remaining_tasks s \<noteq> []" by auto
  with a act show "orchestrate_round s = (s, Continue)"
    by (simp add: orchestrate_round_def)
qed

text \<open>
  Claim C4, amended. The loop has no stall detection: it ends only when no task is left
  outside \<open>COMPLETED\<close> and \<open>FAILED\<close>, or by an exception. In a stall a round leaves the
  state as it is and goes on to the next round, so the loop does not end, whatever the
  fuel; no blocked condition is reported.
\<close>

theorem stalled_loop_never_ends:
  assumes "stalled s"
  shows "orchestrate_round s = (s, Continue) \<and> remaining_tasks s \<noteq> [] \<and>
         orchestrate fuel s = None"
proof -
  have "orchestrate fuel s = None"
    by (induction fuel) (simp_all add: stalled_round [OF assms])
  with stalled_round [OF assms] show ?thesis by simp
qed

theorem stalled_loop_never_ends_witness:
  "stalled failed_prerequisite \<and>
   orchestrate_round failed_prerequisite = (failed_prerequisite, Continue) \<and>
   remaining_tasks failed_prerequisite \<noteq> [] \<and>
   orchestrate 1000 failed_prerequisite = None"
proof -
  have h: "stalled failed_prerequisite" by code_simp
  show ?thesis using stalled_loop_never_ends [OF h, of 1000] h by simp
qed

text \<open>
  Claim C4 as stated fails: with two tasks that wait for each other, a round of the loop
  returns the state it started from with both tasks still pending, and after five
  rounds the loop is still running; nothing reports the stall.
\<close>

theorem deadlock_round_repeats:
  "orchestrate_round deadlock = (deadlock, Continue) \<and>
   map task_status (remaining_tasks deadlock) = [PENDING, PENDING] \<and>
   orchestrate 5 deadlock = None"
  by code_simp

text \<open>
  A property that the start state has and every iteration of the assign phase keeps
  holds in every state of the run; and the state in which a run ends is one of them.
\<close>

lemma run_states_invariant:
  assumes "\<And>p s. I s \<Longrightarrow> I (assign_step p s)" and "I s"
  shows "list_all I (run_states n s)"
  using assms(2)
proof (induction n arbitrary: s)
  case 0
  then show ?case by simp
next
  case (Suc n)
  have 1: "list_all I (steps assign_step (available_tasks s) s)"
    by (rule steps_invariant [where I = I]) (simp_all add: assms(1) Suc.prems)
  have "I (assign_tasks s)"
    unfolding assign_tasks_def
    by (rule fold_invariant [where I = I]) (simp_all add: assms(1) Suc.prems)
  then have "list_all I (run_states n (assign_tasks s))" by (rule Suc.IH)
  with 1 Suc.prems show ?case by simp
qed

lemma orchestrate_end_in_run_states:
  "orchestrate n s = Some r \<Longrightarrow> end_state r \<in> set (run_states n s)"
proof (induction n arbitrary: s)
  case 0
  then show ?case by simp
next
  case (Suc n)
  have mem: "assign_tasks s \<in> set (s # steps assign_step (available_tasks s) s)"
    unfolding assign_tasks_def by (rule fold_in_steps)
  obtain s1 e where re: "orchestrate_round s = (s1, e)" by (cases "orchestrate_round s")
  then have s1: "s1 = assign_tasks s" using fst_orchestrate_round [of s] by simp
  show ?case
  proof (cases e)
    case Continue
    with Suc.prems re have "orchestrate n s1 = Some r" by simp
    then have "end_state r \<in> set (run_states n s1)" by (rule Suc.IH)
    with re Continue s1 show ?thesis by simp
  next
    case Break
    with Suc.prems re have "r = AllCompleted s1" by simp
    with mem s1 show ?thesis by (auto simp: end_state_def)
  next
    case (Raises x)
    with Suc.prems re have "r = Raised x s1" by simp
    with mem s1 show ?thesis by (auto simp: end_state_def)
  qed
qed

lemma exclusive_files_iff:
  "exclusive_files s \<longleftrightarrow>
     (\<forall>t\<in>set (tasks s). \<forall>u\<in>set (tasks s).
        task_id t \<noteq> task_id u \<and> task_status t = IN_PROGRESS \<and> task_status u = IN_PROGRESS \<and>
        set (files t) \<inter> set (files u) \<noteq> {} \<longrightarrow> parallel_safe t \<and> parallel_safe u)"
  by (auto simp: exclusive_files_def list_all_iff)

text \<open>An iteration of the assign phase puts no task in progress.\<close>

lemma in_progress_assign_step:
  assumes "t' \<in> set (tasks (assign_step p s))" and "task_status t' = IN_PROGRESS"
  shows "t' \<in> set (tasks s)"
  using assms by (auto simp: tasks_assign_step update_task_def split: option.splits if_splits)

lemma exclusive_files_assign_step:
  "exclusive_files s \<Longrightarrow> exclusive_files (assign_step p s)"
  unfolding exclusive_files_iff by (meson in_progress_assign_step)

text \<open>A freshly loaded graph, where every task is pending, has the property.\<close>

lemma all_pending_exclusive:
  "list_all (\<lambda>t. task_status t = PENDING) (tasks s) \<Longrightarrow> exclusive_files s"
  by (auto simp: exclusive_files_iff list_all_iff)

text \<open>
  Claim C1. In every state of a scheduling run, two distinct tasks in status
  \<open>IN_PROGRESS\<close> whose file sets intersect are both parallel-safe, given this of the state
  the run starts from. The loop puts no task in progress: the assign phase writes
  \<open>ASSIGNED\<close> only, and \<^verbatim>\<open>asyncio.wait\<close> raises before an execution starts.
\<close>

theorem run_keeps_files_exclusive:
  assumes "exclusive_files s"
  shows "list_all exclusive_files (run_states n s)"
  using exclusive_files_assign_step assms by (rule run_states_invariant)

theorem run_keeps_files_exclusive_witness:
  "exclusive_files shared_file \<and> list_all exclusive_files (run_states 2 shared_file) \<and>
   map (map task_status \<circ> tasks) (run_states 2 shared_file)
     = [[PENDING, PENDING], [ASSIGNED, PENDING], [ASSIGNED, ASSIGNED]] \<and>
   map_option end_state (orchestrate 2 shared_file) = Some (assign_tasks shared_file) \<and>
   snd (orchestrate_round shared_file) = Raises TypeError"
proof -
  have h: "exclusive_files shared_file" by code_simp
  have o: "map (map task_status \<circ> tasks) (run_states 2 shared_file)
     = [[PENDING, PENDING], [ASSIGNED, PENDING], [ASSIGNED, ASSIGNED]]" by code_simp
  have e: "map_option end_state (orchestrate 2 shared_file) = Some (assign_tasks shared_file)"
    by code_simp
  have r: "snd (orchestrate_round shared_file) = Raises TypeError" by code_simp
  show ?thesis using run_keeps_files_exclusive [OF h, of 2] h o e r by simp
qed

subsection \<open>Statuses along a run\<close>

lemma task_ids_update:
  "(\<And>x. task_id (f x) = task_id x) \<Longrightarrow> map task_id (update_task i f ts) = map task_id ts"
  by (induction ts) (simp_all add: update_task_def)

lemma agent_ids_update:
  "(\<And>x. agent_id (f x) = agent_id x) \<Longrightarrow> map agent_id (update_agent i f as) = map agent_id as"
  by (induction as) (simp_all add: update_agent_def)

lemma agent_ids_assign_step:
  "map agent_id (agents (assign_step p s)) = map agent_id (agents s)"
  by (simp add: agents_assign_step agent_ids_update split: option.splits)

lemma well_formed_assign_step: "well_formed s \<Longrightarrow> well_formed (assign_step p s)"
  by (simp add: well_formed_def task_ids_assign_step agent_ids_assign_step)

lemma well_formed_fold_assign: "well_formed s \<Longrightarrow> well_formed (fold assign_step ps s)"
  by (rule fold_invariant [where I = well_formed]) (simp_all add: well_formed_assign_step)

lemma advanced_iff:
  "advanced s s' \<longleftrightarrow>
     (\<forall>t\<in>set (tasks s). status_of s' (task_id t) = Some (task_status t) \<or>
        (task_status t = PENDING \<and> status_of s' (task_id t) = Some ASSIGNED))"
  by (simp add: advanced_def list_all_iff)

lemma advanced_trans:
  assumes "advanced s0 s" and "advanced s s'"
  shows "advanced s0 s'"
  unfolding advanced_iff
proof
  fix t assume t: "t \<in> set (tasks s0)"
  from assms(1) t obtain st where st: "status_of s (task_id t) = Some st"
    and c: "st = task_status t \<or> (task_status t = PENDING \<and> st = ASSIGNED)"
    by (auto simp: advanced_iff)
  from st obtain u where u: "lookup_task (tasks s) (task_id t) = Some u" "task_status u = st"
    by (auto simp: status_of_def)
  then have "u \<in> set (tasks s)" "task_id u = task_id t" by (auto dest: lookup_task_SomeD)
  with assms(2) have "status_of s' (task_id t) = Some (task_status u) \<or>
      (task_status u = PENDING \<and> status_of s' (task_id t) = Some ASSIGNED)"
    by (auto simp: advanced_iff)
  with u(2) c show "status_of s' (task_id t) = Some (task_status t) \<or>
      (task_status t = PENDING \<and> status_of s' (task_id t) = Some ASSIGNED)"
    by auto
qed

lemma advanced_assign_prefix:
  assumes "well_formed s" and "available_tasks s = ys @ zs"
  shows "advanced s (fold assign_step ys s)"
  unfolding advanced_iff
proof
  fix t assume t: "t \<in> set (tasks s)"
  have dist: "distinct (map task_id (tasks s))" using assms(1) by (simp add: well_formed_def)
  have lk: "lookup_task (tasks s) (task_id t) = Some t"
    using dist t by (rule lookup_task_distinct)
  have same: "x = y" if "x \<in> set (tasks s)" "y \<in> set (tasks s)" "task_id x = task_id y" for x y
    using dist that by (auto simp: distinct_map dest: inj_onD)
  have sub: "p \<in> set (tasks s) \<and> task_status p = PENDING" if "p \<in> set ys" for p
  proof -
    from that assms(2) have "p \<in> set (available_tasks s)" by simp
    then show ?thesis by (simp add: available_tasks_def)
  qed
  have "distinct (map task_id (available_tasks s))"
    using dist by (simp add: available_tasks_def distinct_map_filter)
  then have 1: "distinct (map task_id ys)" using assms(2) by simp
  have 2: "\<forall>p\<in>set ys. \<forall>u\<in>set (tasks s). task_id u = task_id p \<longrightarrow> task_status u = PENDING"
    using same sub by blast
  show "status_of (fold assign_step ys s) (task_id t) = Some (task_status t) \<or>
      (task_status t = PENDING \<and> status_of (fold assign_step ys s) (task_id t) = Some ASSIGNED)"
  proof (cases "t \<in> set ys")
    case True
    from status_of_fold_assign [OF 1 2 True lk] sub [OF True] show ?thesis by auto
  next
    case False
    have "task_id t \<notin> task_id ` set ys"
    proof
      assume "task_id t \<in> task_id ` set ys"
      then obtain p where p: "p \<in> set ys" "task_id t = task_id p" by auto
      with same [of t p] t sub [OF p(1)] have "t = p" by simp
      with p(1) False show False by simp
    qed
    then show ?thesis using lk
      by (simp add: status_of_def lookup_task_fold_assign_other)
  qed
qed

lemma advanced_refl: "well_formed s \<Longrightarrow> advanced s s"
  using advanced_assign_prefix [of s "[]" "available_tasks s"] by simp

lemma advanced_run_states:
  assumes "well_formed s" and "advanced s0 s"
  shows "list_all (advanced s0) (run_states n s)"
  using assms
proof (induction n arbitrary: s)
  case 0
  then show ?case by simp
next
  case (Suc n)
  have step: "advanced s0 t" if "t \<in> set (steps assign_step (available_tasks s) s)" for t
  proof -
    from steps_as_folds [OF that] obtain ys zs where
      "available_tasks s = ys @ zs" "t = fold assign_step ys s" by blast
    with advanced_assign_prefix [OF Suc.prems(1)] have "advanced s t" by simp
    with Suc.prems(2) show ?thesis by (rule advanced_trans)
  qed
  have "advanced s (assign_tasks s)"
    using advanced_assign_prefix [OF Suc.prems(1), of "available_tasks s" "[]"]
    by (simp add: assign_tasks_def)
  with Suc.prems(2) have a: "advanced s0 (assign_tasks s)" by (rule advanced_trans)
  have w: "well_formed (assign_tasks s)"
    unfolding assign_tasks_def using Suc.prems(1) by (rule well_formed_fold_assign)
  from Suc.IH [OF w a] step Suc.prems(2) show ?case
    by (auto simp: list_all_iff)
qed

text \<open>
  Claim C5. An execution that is interrupted at its await by a cancellation leaves its
  task in status \<open>IN_PROGRESS\<close>, neither \<open>FAILED\<close> nor \<open>PENDING\<close>, and returns nothing:
  \<^verbatim>\<open>CancelledError\<close> passes the handler \<^verbatim>\<open>except Exception\<close> and only the \<^verbatim>\<open>finally\<close>
  block runs. And in every state of a run each task has the status it had when the run
  began, or has gone from \<open>PENDING\<close> to \<open>ASSIGNED\<close>: no round marks a task failed or puts
  it back to pending.
\<close>

theorem interrupted_task_stays_in_progress:
  assumes "well_formed s" and "lookup_task (tasks s) t = Some task"
  shows "status_of (final (execute_task a t RunCancelled mo s)) t = Some IN_PROGRESS \<and>
         returned (execute_task a t RunCancelled mo s) = None \<and>
         list_all (advanced s) (run_states n s)"
proof -
  have "status_of s t = Some (task_status task)"
    using assms(2) by (simp add: status_of_def)
  then have "status_of (final (execute_task a t RunCancelled mo s)) t = Some IN_PROGRESS"
    by (simp add: execute_task_def status_of_execute_resume status_of_execute_start)
  moreover have "returned (execute_task a t RunCancelled mo s) = None"
    by (simp add: execute_task_def execute_resume_def)
  moreover have "list_all (advanced s) (run_states n s)"
    using assms(1) advanced_refl [OF assms(1)] by (rule advanced_run_states)
  ultimately show ?thesis by simp
qed

theorem interrupted_task_stays_in_progress_witness:
  "well_formed one_assigned \<and> lookup_task (tasks one_assigned) ''T1'' = Some api_task \<and>
   status_of (final (execute_task ''backend'' ''T1'' RunCancelled MergeDone one_assigned)) ''T1''
     = Some IN_PROGRESS \<and>
   returned (execute_task ''backend'' ''T1'' RunCancelled MergeDone one_assigned) = None \<and>
   list_all (advanced one_assigned) (run_states 2 one_assigned)"
proof -
  have h1: "well_formed one_assigned" by code_simp
  have h2: "lookup_task (tasks one_assigned) ''T1'' = Some api_task"
    by (simp add: one_assigned_def api_task_def new_task_def lookup_task_def)
  show ?thesis
    using interrupted_task_stays_in_progress [OF h1 h2, of "''backend''" MergeDone 2] h1 h2
    by simp
qed

subsection \<open>Agents and their tasks\<close>

text \<open>
  The link between an agent and the task it holds after an iteration of the assign
  phase: the task is \<open>ASSIGNED\<close>, to this agent.
\<close>

lemma linkedD:
  assumes "linked s" and "a \<in> set (agents s)"
  shows "agent_status a = ''idle''"
    and "current_task a = Some t \<Longrightarrow> t \<noteq> [] \<Longrightarrow>
         \<exists>task. lookup_task (tasks s) t = Some task \<and> task_status task = ASSIGNED \<and>
                assigned_agent task = Some (agent_id a)"
proof -
  from assms have *: "agent_status a = ''idle'' \<and>
      (case current_task a of
         None \<Rightarrow> True
       | Some t \<Rightarrow>
           t = [] \<or>
           (case lookup_task (tasks s) t of
              None \<Rightarrow> False
            | Some task \<Rightarrow>
                task_status task = ASSIGNED \<and> assigned_agent task = Some (agent_id a)))"
    by (simp add: linked_def list_all_iff)
  then show "agent_status a = ''idle''" by simp
  assume "current_task a = Some t" "t \<noteq> []"
  with * show "\<exists>task. lookup_task (tasks s) t = Some task \<and> task_status task = ASSIGNED \<and>
                assigned_agent task = Some (agent_id a)"
    by (cases "lookup_task (tasks s) t") simp_all
qed

lemma linkedI:
  assumes "\<And>a. a \<in> set (agents s) \<Longrightarrow> agent_status a = ''idle''"
    and "\<And>a t. a \<in> set (agents s) \<Longrightarrow> current_task a = Some t \<Longrightarrow> t \<noteq> [] \<Longrightarrow>
         \<exists>task. lookup_task (tasks s) t = Some task \<and> task_status task = ASSIGNED \<and>
                assigned_agent task = Some (agent_id a)"
  shows "linked s"
  unfolding linked_def list_all_iff
proof (intro ballI conjI)
  fix a assume a: "a \<in> set (agents s)"
  show "agent_status a = ''idle''" using assms(1) a .
  show "case current_task a of None \<Rightarrow> True
        | Some t \<Rightarrow> t = [] \<or> (case lookup_task (tasks s) t of None \<Rightarrow> False
            | Some task \<Rightarrow> task_status task = ASSIGNED \<and> assigned_agent task = Some (agent_id a))"
  proof (cases "current_task a")
    case None
    then show ?thesis by simp
  next
    case (Some t)
    show ?thesis
    proof (cases "t = []")
      case True
      with Some show ?thesis by simp
    next
      case False
      from assms(2) [OF a Some False] Some show ?thesis by auto
    qed
  qed
qed

lemma all_free_linked: "all_free s \<Longrightarrow> linked s"
  by (rule linkedI) (auto simp: all_free_def list_all_iff truthy_def)

lemma linked_assign_step:
  assumes "linked s" and "lookup_task (tasks s) (task_id p) = Some u" and "task_status u = PENDING"
  shows "linked (assign_step p s)"
proof (cases "find_best_agent_for_task s p")
  case None
  with assms(1) show ?thesis by (simp add: assign_step_def)
next
  case (Some b)
  show ?thesis
  proof (cases "can_assign_task s p")
    case False
    with assms(1) Some show ?thesis by (simp add: assign_step_def)
  next
    case True
    let ?f = "\<lambda>t. t\<lparr>task_status := ASSIGNED, assigned_agent := Some (agent_id b)\<rparr>"
    have ts: "tasks (assign_step p s) = update_task (task_id p) ?f (tasks s)"
      using Some True by (simp add: tasks_assign_step)
    have ags: "agents (assign_step p s) =
        update_agent (agent_id b) (\<lambda>a. a\<lparr>current_task := Some (task_id p)\<rparr>) (agents s)"
      using Some True by (simp add: agents_assign_step)
    have lk: "lookup_task (tasks (assign_step p s)) j =
        (if j = task_id p then Some (?f u) else lookup_task (tasks s) j)" for j
      using assms(2) by (simp add: ts lookup_task_update)
    show ?thesis
    proof (rule linkedI)
      fix y assume "y \<in> set (agents (assign_step p s))"
      then obtain x where x: "x \<in> set (agents s)"
        and y: "y = (if agent_id x = agent_id b then x\<lparr>current_task := Some (task_id p)\<rparr> else x)"
        by (auto simp: ags update_agent_def)
      from linkedD(1) [OF assms(1) x] y show "agent_status y = ''idle''" by simp
      fix t assume ct: "current_task y = Some t" and ne: "t \<noteq> []"
      show "\<exists>task. lookup_task (tasks (assign_step p s)) t = Some task \<and>
          task_status task = ASSIGNED \<and> assigned_agent task = Some (agent_id y)"
      proof (cases "agent_id x = agent_id b")
        case True
        with y ct have "t = task_id p" "agent_id y = agent_id b" by auto
        then show ?thesis by (simp add: lk)
      next
        case False
        with y have yx: "y = x" by simp
        from linkedD(2) [OF assms(1) x] ct ne yx obtain task where
          task: "lookup_task (tasks s) t = Some task" "task_status task = ASSIGNED"
            "assigned_agent task = Some (agent_id x)" by auto
        with assms(2,3) have "t \<noteq> task_id p" by auto
        with task yx show ?thesis by (simp add: lk)
      qed
    qed
  qed
qed

lemma linked_fold_assign:
  assumes "distinct (map task_id ps)"
    and "\<forall>p\<in>set ps. \<exists>u. lookup_task (tasks s) (task_id p) = Some u \<and> task_status u = PENDING"
    and "linked s"
  shows "linked (fold assign_step ps s)"
  using assms
proof (induction ps arbitrary: s)
  case Nil
  then show ?case by simp
next
  case (Cons p ps)
  from Cons.prems(2) obtain u where u: "lookup_task (tasks s) (task_id p) = Some u"
    "task_status u = PENDING" by auto
  have l1: "linked (assign_step p s)"
    by (rule linked_assign_step [OF Cons.prems(3) u])
  from Cons.prems(1) have "task_id p \<notin> task_id ` set ps" by simp
  then have others: "task_id q \<noteq> task_id p" if "q \<in> set ps" for q
    using that by (metis imageI)
  have "\<forall>q\<in>set ps. \<exists>u. lookup_task (tasks (assign_step p s)) (task_id q) = Some u \<and>
      task_status u = PENDING"
    using Cons.prems(2) others by (simp add: lookup_task_assign_step_other)
  moreover have "distinct (map task_id ps)" using Cons.prems(1) by simp
  ultimately have "linked (fold assign_step ps (assign_step p s))"
    using l1 by (intro Cons.IH)
  then show ?case by simp
qed

lemma active_tasks_complete:
  assumes "active_tasks ts as = Some act" and "x \<in> set as" and "current_task x = Some t"
    and "t \<noteq> []" and "lookup_task ts t = Some task" and "task_status task = ASSIGNED"
  shows "(agent_id x, t) \<in> set act"
  using assms(1,2)
proof (induction as arbitrary: act)
  case Nil
  then show ?case by simp
next
  case (Cons agent as)
  show ?case
  proof (cases "x = agent")
    case True
    with assms(3-6) Cons.prems(1) obtain rest where
      "act = (agent_id agent, task_id task) # rest"
      by (auto split: option.splits)
    moreover from assms(5) have "task_id task = t" by (auto dest: lookup_task_SomeD)
    ultimately show ?thesis using True by simp
  next
    case False
    with Cons.prems(2) have xin: "x \<in> set as" by simp
    have "\<exists>rest. active_tasks ts as = Some rest \<and> set rest \<subseteq> set act"
      using Cons.prems(1) by (auto split: option.splits if_splits)
    then obtain rest where rest: "active_tasks ts as = Some rest"
      and sub: "set rest \<subseteq> set act" by blast
    from Cons.IH [OF rest xin] sub show ?thesis by auto
  qed
qed

lemma truthy_Some [simp]: "truthy (Some t) \<longleftrightarrow> t \<noteq> []"
  by (simp add: truthy_def)

lemma truthy_None [simp]: "\<not> truthy None"
  by (simp add: truthy_def)

lemma truthyE: "truthy c \<Longrightarrow> \<exists>t. c = Some t \<and> t \<noteq> []"
  by (cases c) simp_all

lemma consistent_or_reservedI:
  assumes "\<And>a. a \<in> set (agents s) \<Longrightarrow>
     (agent_status a = ''working'') = truthy (current_task a) \<or>
     (agent_status a = ''idle'' \<and> holds_assigned s a)"
  shows "consistent_or_reserved s"
  using assms by (simp add: consistent_or_reserved_def list_all_iff)

lemma linked_consistent:
  assumes "linked s"
  shows "consistent_or_reserved s"
proof (rule consistent_or_reservedI)
  fix a assume a: "a \<in> set (agents s)"
  show "(agent_status a = ''working'') = truthy (current_task a) \<or>
        (agent_status a = ''idle'' \<and> holds_assigned s a)"
  proof (cases "truthy (current_task a)")
    case False
    with linkedD(1) [OF assms a] show ?thesis by simp
  next
    case True
    then obtain t where t: "current_task a = Some t" "t \<noteq> []" by (auto dest: truthyE)
    from linkedD(2) [OF assms a t] have "status_of s t = Some ASSIGNED"
      by (auto simp: status_of_def)
    with linkedD(1) [OF assms a] t show ?thesis by (simp add: holds_assigned_def)
  qed
qed

lemma linked_assign_prefix:
  assumes "well_formed s" and "all_free s" and "available_tasks s = ys @ zs"
  shows "linked (fold assign_step ys s)"
proof (rule linked_fold_assign)
  have dist: "distinct (map task_id (tasks s))" using assms(1) by (simp add: well_formed_def)
  then have "distinct (map task_id (available_tasks s))"
    by (simp add: available_tasks_def distinct_map_filter)
  then show "distinct (map task_id ys)" using assms(3) by simp
  have "\<forall>p\<in>set (available_tasks s).
      \<exists>u. lookup_task (tasks s) (task_id p) = Some u \<and> task_status u = PENDING"
    using lookup_task_distinct [OF dist] by (auto simp: available_tasks_def)
  then show "\<forall>p\<in>set ys. \<exists>u. lookup_task (tasks s) (task_id p) = Some u \<and> task_status u = PENDING"
    using assms(3) by simp
  show "linked s" using assms(2) by (rule all_free_linked)
qed

text \<open>When an assign phase leaves nothing to launch, it leaves every agent free.\<close>

lemma linked_nothing_to_launch:
  assumes "linked s" and "active_tasks (tasks s) (agents s) = Some []"
  shows "all_free s"
  unfolding all_free_def list_all_iff
proof
  fix x assume x: "x \<in> set (agents s)"
  have "\<not> truthy (current_task x)"
  proof
    assume "truthy (current_task x)"
    then obtain t where t: "current_task x = Some t" "t \<noteq> []" by (auto dest: truthyE)
    from linkedD(2) [OF assms(1) x t] obtain task where
      "lookup_task (tasks s) t = Some task" "task_status task = ASSIGNED" by blast
    from active_tasks_complete [OF assms(2) x t this] show False by simp
  qed
  with linkedD(1) [OF assms(1) x]
  show "agent_status x = ''idle'' \<and> \<not> truthy (current_task x)" by simp
qed

text \<open>
  Claim C6, amended. In every state of a run that starts with every agent free (idle,
  holding no task), as a run does, each agent satisfies: its status is "working" if and
  only if its \<^verbatim>\<open>current_task\<close> is non-empty, or it is idle and holds a task in status
  \<open>ASSIGNED\<close> (assigned and not yet executing). So no agent is observable as working
  without a task, and an agent that holds an assigned task is observable as idle with it.
\<close>

theorem agent_consistent_or_reserved:
  assumes "well_formed s" and "all_free s"
  shows "list_all consistent_or_reserved (run_states n s)"
  using assms
proof (induction n arbitrary: s)
  case 0
  then show ?case by (simp add: linked_consistent all_free_linked)
next
  case (Suc n)
  have here: "consistent_or_reserved s"
    using Suc.prems(2) by (simp add: linked_consistent all_free_linked)
  have step: "consistent_or_reserved t"
    if "t \<in> set (steps assign_step (available_tasks s) s)" for t
  proof -
    from steps_as_folds [OF that] obtain ys zs where
      "available_tasks s = ys @ zs" "t = fold assign_step ys s" by blast
    with linked_assign_prefix [OF Suc.prems] show ?thesis by (simp add: linked_consistent)
  qed
  have rest: "list_all consistent_or_reserved (run_states n (assign_tasks s))"
    if "snd (orchestrate_round s) = Continue"
  proof -
    have l: "linked (assign_tasks s)"
      using linked_assign_prefix [OF Suc.prems, of "available_tasks s" "[]"]
      by (simp add: assign_tasks_def)
    from orchestrate_round_Continue [OF that] l have f: "all_free (assign_tasks s)"
      by (simp add: linked_nothing_to_launch)
    have w: "well_formed (assign_tasks s)"
      unfolding assign_tasks_def using Suc.prems(1) by (rule well_formed_fold_assign)
    from w f show ?thesis by (rule Suc.IH)
  qed
  from here step rest show ?case by (auto simp: list_all_iff)
qed

theorem agent_consistent_or_reserved_witness:
  "well_formed two_pending \<and> all_free two_pending \<and>
   list_all consistent_or_reserved (run_states 2 two_pending) \<and>
   map (map (\<lambda>a. (agent_status a, current_task a)) \<circ> agents) (run_states 2 two_pending)
     = [[(''idle'', None), (''idle'', None)],
        [(''idle'', Some ''T1''), (''idle'', None)],
        [(''idle'', Some ''T1''), (''idle'', Some ''T2'')]]"
proof -
  have h1: "well_formed two_pending" by code_simp
  have h2: "all_free two_pending" by code_simp
  have o: "map (map (\<lambda>a. (agent_status a, current_task a)) \<circ> agents)
       (run_states 2 two_pending)
     = [[(''idle'', None), (''idle'', None)],
        [(''idle'', Some ''T1''), (''idle'', None)],
        [(''idle'', Some ''T1''), (''idle'', Some ''T2'')]]"
    by code_simp
  show ?thesis
    using agent_consistent_or_reserved [OF h1 h2, of 2] h1 h2 o by simp
qed

text \<open>
  Claim C6 as stated fails: after the assign phase of the first round the agent is
  observable as idle with a task, and the run ends there, at \<^verbatim>\<open>asyncio.wait\<close>.
\<close>

theorem idle_agent_holds_task:
  "map agents_consistent (run_states 1 single_pending) = [True, False] \<and>
   map (\<lambda>a. (agent_id a, agent_status a, current_task a))
       (agents (assign_tasks single_pending))
     = [(''backend'', ''idle'', Some ''T1'')] \<and>
   snd (orchestrate_round single_pending) = Raises TypeError"
  by code_simp

text \<open>
  Inside an execution, whoever drives it: the agent that holds the task is working with
  its task from the start of the execution to its end, and free after it.
\<close>

lemma executing_agent_consistent:
  assumes "lookup_agent (agents s) a = Some agent" and "current_task agent = Some t"
  shows "lookup_agent (agents (execute_start a t s)) a =
           Some (agent\<lparr>agent_status := ''working''\<rparr>)"
    and "lookup_agent (agents (final (execute_task a t ro mo s))) a =
           Some (agent\<lparr>agent_status := ''idle'', current_task := None\<rparr>)"
  using assms
  by (simp_all add: execute_task_def execute_start_def agents_final_execute_resume
      lookup_agent_release lookup_agent_update)

end
